(* ===== verification/Prelude.thy ===== *)
theory Prelude
  imports Main
    "HOL-Library.List_Lexorder"
    "HOL-Library.Char_ord"
    "HOL-Library.Sublist"
    "HOL-Library.AList"
    "HOL-Library.Multiset"
begin

text \<open>
  Shared vocabulary of the memkv development.
  \<^item> The error values the store returns or raises: \<open>ErrNotExist\<close> and \<open>ErrNoMatch\<close>
    (src/store.go, lines 16--17), \<open>ErrBadPattern\<close> (the error of Go's
    \<open>path/filepath.Match\<close>) and \<open>ErrSliceBounds\<close>, the run-time panic
    \<open>slice bounds out of range\<close> that Go raises for \<open>s[1:]\<close> on an empty string.
  \<^item> Go strings are byte strings; a HOL \<open>string\<close> is a list of 8-bit \<open>char\<close>s, so
    lengths, prefixes and slicing agree byte for byte. Go compares strings byte-wise
    and lexicographically (a proper prefix first), which is the order that
    \<open>List_Lexorder\<close> and \<open>Char_ord\<close> put on \<open>char list\<close>.
  \<^item> \<open>splitN2\<close> is \<open>strings.SplitN(s, "/", 2)\<close> of the Go library.
  \<^item> Generic facts on sorting by a key and on \<open>sorted_list_of_set\<close> that the store's
    query operations share.
\<close>

section \<open>Errors and the path separator\<close>

datatype error = ErrNotExist | ErrNoMatch | ErrBadPattern | ErrSliceBounds

abbreviation Separator :: char where
  "Separator \<equiv> CHR ''/''"

text \<open>
  The error part of a result: \<open>Inl e\<close> for the error \<open>e\<close>, \<open>Inr ()\<close> for any
  successful result. Two computations with the same error part fail in the same way or
  both succeed.
\<close>

fun err_part :: "'e + 'a \<Rightarrow> 'e + unit" where
  "err_part (Inl e) = Inl e"
| "err_part (Inr _) = Inr ()"

lemma err_part_Inr_iff [simp]: "err_part x = Inr () \<longleftrightarrow> (\<exists>y. x = Inr y)"
  by (cases x) auto

lemma err_part_Inl_iff [simp]: "err_part x = Inl e \<longleftrightarrow> x = Inl e"
  by (cases x) auto

named_theorems model_simps "evaluation rules of the Go library functions the store calls"

section \<open>strings.SplitN with separator "/" and limit 2\<close>

text \<open>
  \<open>strings.SplitN(s, "/", 2)\<close> returns \<open>[s]\<close> when \<open>s\<close> holds no \<open>/\<close>, and
  otherwise the part before the first \<open>/\<close> and the part after it. It never returns an
  empty slice (for \<open>s = ""\<close> it returns \<open>[""]\<close>).
\<close>

definition splitN2 :: "string \<Rightarrow> string list" where
  "splitN2 s =
     (case dropWhile (\<lambda>c. c \<noteq> Separator) s of
        [] \<Rightarrow> [s]
      | _ # after \<Rightarrow> [takeWhile (\<lambda>c. c \<noteq> Separator) s, after])"

lemma splitN2_Nil:
  assumes "dropWhile (\<lambda>c. c \<noteq> Separator) s = []"
  shows "splitN2 s = [s] \<and> Separator \<notin> set s"
proof -
  from assms have "\<forall>x\<in>set s. x \<noteq> Separator"
    by (simp add: dropWhile_eq_Nil_conv)
  then have "Separator \<notin> set s" by blast
  moreover have "splitN2 s = [s]"
    unfolding splitN2_def assms by simp
  ultimately show ?thesis by blast
qed

lemma splitN2_Cons:
  assumes "dropWhile (\<lambda>c. c \<noteq> Separator) s = c # rest"
  shows "splitN2 s = [takeWhile (\<lambda>c. c \<noteq> Separator) s, rest] \<and> Separator \<in> set s"
proof -
  from assms have "s = takeWhile (\<lambda>c. c \<noteq> Separator) s @ c # rest \<and> \<not> c \<noteq> Separator"
    by (rule dropWhile_eq_Cons_conv [THEN iffD1])
  then have "c \<in> set s" and "c = Separator"
    by (metis in_set_conv_decomp, blast)
  moreover have "splitN2 s = [takeWhile (\<lambda>c. c \<noteq> Separator) s, rest]"
    unfolding splitN2_def assms by simp
  ultimately show ?thesis by blast
qed

lemma splitN2_first:
  "\<exists>rest. splitN2 s = takeWhile (\<lambda>c. c \<noteq> Separator) s # rest"
proof (cases "dropWhile (\<lambda>c. c \<noteq> Separator) s")
  case Nil
  then have "splitN2 s = [s]" and "Separator \<notin> set s"
    using splitN2_Nil by blast+
  moreover from \<open>Separator \<notin> set s\<close> have "takeWhile (\<lambda>c. c \<noteq> Separator) s = s"
    by (auto simp: takeWhile_eq_all_conv)
  ultimately show ?thesis by metis
next
  case (Cons c rest)
  then show ?thesis
    using splitN2_Cons by blast
qed

lemma splitN2_length:
  "length (splitN2 s) < 2 \<longleftrightarrow> Separator \<notin> set s"
proof (cases "dropWhile (\<lambda>c. c \<noteq> Separator) s")
  case Nil
  then show ?thesis
    using splitN2_Nil by simp
next
  case (Cons c rest)
  then show ?thesis
    using splitN2_Cons by simp
qed

section \<open>Association lists\<close>

lemma set_AList_update_subset: "set (AList.update k v al) \<subseteq> insert (k, v) (set al)"
  by (induction al) auto

lemma set_AList_delete_subset: "set (AList.delete k al) \<subseteq> set al"
  by (auto simp: AList.delete_eq)

lemma splitN2_nth0: "splitN2 s ! 0 = takeWhile (\<lambda>c. c \<noteq> Separator) s"
  using splitN2_first [of s] by auto

section \<open>Sorting by a key that is unique\<close>

text \<open>
  Go's \<open>sort.Sort\<close> is not stable, but when the keys are distinct every sorting
  algorithm returns the same list: the one sorted permutation. The model sorts with
  \<open>sort_key\<close> (insertion sort); \<open>sort_key_unique\<close> shows that any other correct sort
  gives the same result.
\<close>

lemma filter_same_key:
  "distinct (map f xs) \<Longrightarrow> k \<in> set xs \<Longrightarrow> filter (\<lambda>x. f k = f x) xs = [k]"
proof (induction xs)
  case Nil
  then show ?case by simp
next
  case (Cons x xs)
  show ?case
  proof (cases "x = k")
    case True
    with Cons.prems have "\<forall>y\<in>set xs. f k \<noteq> f y"
      by auto
    with True show ?thesis by simp
  next
    case False
    with Cons.prems have "f k \<noteq> f x" and "k \<in> set xs"
      by (auto simp: rev_image_eqI)
    with Cons.IH Cons.prems show ?thesis by simp
  qed
qed

lemma sort_key_unique:
  assumes "distinct (map f xs)" and "mset ys = mset xs" and "sorted (map f ys)"
  shows "sort_key f xs = ys"
proof (rule properties_for_sort_key)
  show "mset ys = mset xs" by (rule assms(2))
  show "sorted (map f ys)" by (rule assms(3))
  have "mset (map f ys) = mset (map f xs)"
    using assms(2) by simp
  then have dys: "distinct (map f ys)"
    using assms(1) mset_eq_imp_distinct_iff by blast
  have "set ys = set xs"
    using assms(2) by (rule mset_eq_setD)
  show "filter (\<lambda>x. f k = f x) ys = filter (\<lambda>x. f k = f x) xs" if "k \<in> set ys" for k
  proof -
    have "filter (\<lambda>x. f k = f x) ys = [k]"
      using dys that by (rule filter_same_key)
    moreover have "filter (\<lambda>x. f k = f x) xs = [k]"
      using assms(1) that \<open>set ys = set xs\<close> by (simp add: filter_same_key)
    ultimately show ?thesis by simp
  qed
qed

lemma sort_key_mset_eq:
  "distinct (map f xs) \<Longrightarrow> mset xs = mset ys \<Longrightarrow> sort_key f xs = sort_key f ys"
  by (rule sort_key_unique) simp_all

end
