(* ===== verification/Glob.thy ===== *)
theory Glob
  imports Prelude
begin

text \<open>
  The glob matcher that \<open>Store.GetAll\<close> calls: Go's \<open>path/filepath.Match\<close> on a
  Unix system (separator \<open>/\<close>, backslash escapes). It is not code of this
  repository, but the spec (sections 4.1 and 6) makes its exact semantics part of the
  store's contract, so it is modelled function by function from the Go library:
  \<open>getEsc\<close>, the range loop of a character class (\<open>classRanges\<close>), \<open>matchChunk\<close>,
  \<open>scanChunk\<close>, the star search, the check of the pattern's remainder and the
  \<open>Pattern\<close> loop of \<open>Match\<close>. Every loop is a recursive function with a
  termination proof. A character of the model is one byte, decoded as one rune: the model
  is exact on ASCII names and patterns (Go decodes UTF-8 runes where this model reads
  bytes).
\<close>

abbreviation Backslash :: char where
  "Backslash \<equiv> CHR 0x5C"

section \<open>getEsc\<close>

text \<open>One end of a range in a character class, possibly escaped.\<close>

definition getEsc :: "string \<Rightarrow> error + (char \<times> string)" where
  "getEsc chunk =
     (case chunk of
        [] \<Rightarrow> Inl ErrBadPattern
      | c # cs \<Rightarrow>
          if c = CHR ''-'' \<or> c = CHR '']'' then Inl ErrBadPattern
          else (case (if c = Backslash then cs else chunk) of
                  [] \<Rightarrow> Inl ErrBadPattern
                | r # nchunk \<Rightarrow>
                    if nchunk = [] then Inl ErrBadPattern else Inr (r, nchunk)))"

lemma getEsc_shorter:
  "getEsc chunk = Inr (r, rest) \<Longrightarrow> length rest < length chunk"
  by (auto simp: getEsc_def split: list.splits if_splits)

lemma getEsc_nonempty:
  "getEsc chunk = Inr (r, rest) \<Longrightarrow> rest \<noteq> []"
  by (auto simp: getEsc_def split: list.splits if_splits)

section \<open>The ranges of a character class\<close>

text \<open>
  The inner \<open>for\<close> loop of the \<open>'['\<close> case of \<open>matchChunk\<close>: it reads ranges
  \<open>lo\<close> or \<open>lo-hi\<close> until a \<open>]\<close> that is not the first character of the class,
  and records whether the rune \<open>r\<close> lies in one of them. It returns the rest of the
  chunk and the flag \<open>match\<close>.
\<close>

function classRanges :: "string \<Rightarrow> char \<Rightarrow> bool \<Rightarrow> nat \<Rightarrow> error + (string \<times> bool)" where
  "classRanges chunk r match nrange =
     (if take 1 chunk = '']'' \<and> 0 < nrange then Inr (drop 1 chunk, match)
      else (case getEsc chunk of
              Inl e \<Rightarrow> Inl e
            | Inr (lo, chunk1) \<Rightarrow>
                (case (if take 1 chunk1 = ''-'' then getEsc (drop 1 chunk1) else Inr (lo, chunk1)) of
                   Inl e \<Rightarrow> Inl e
                 | Inr (hi, chunk2) \<Rightarrow>
                     classRanges chunk2 r (match \<or> (lo \<le> r \<and> r \<le> hi)) (Suc nrange))))"
  by pat_completeness auto
termination
  by (relation "measure (\<lambda>(chunk, r, match, nrange). length chunk)")
    (force split: if_splits dest: getEsc_shorter)+

declare classRanges.simps [simp del]

lemma classRanges_shorter:
  "classRanges chunk r match nrange = Inr (rest, b) \<Longrightarrow> length rest < length chunk"
proof (induction chunk r match nrange rule: classRanges.induct)
  case (1 chunk r match nrange)
  show ?case
  proof (cases "take 1 chunk = '']'' \<and> 0 < nrange")
    case True
    then have "chunk \<noteq> []" by auto
    with True "1.prems" show ?thesis
      by (auto simp: classRanges.simps [of chunk])
  next
    case False
    with "1.prems" obtain lo chunk1 hi chunk2 where
      esc: "getEsc chunk = Inr (lo, chunk1)"
      and hi: "(if take 1 chunk1 = ''-'' then getEsc (drop 1 chunk1) else Inr (lo, chunk1))
                 = Inr (hi, chunk2)"
      and rec: "classRanges chunk2 r (match \<or> (lo \<le> r \<and> r \<le> hi)) (Suc nrange) = Inr (rest, b)"
      by (auto simp: classRanges.simps [of chunk] split: sum.splits)
    from esc hi have "length chunk2 < length chunk"
      by (auto split: if_splits dest!: getEsc_shorter)
    moreover have "length rest < length chunk2"
      by (rule "1.IH" [OF False esc refl hi refl rec])
    ultimately show ?thesis by simp
  qed
qed

text \<open>
  The rune being classified does not influence how the class is parsed: the error, or
  the rest of the chunk after the class, is the same for every rune and every initial
  value of \<open>match\<close>.
\<close>

lemma classRanges_shape:
  "map_sum id fst (classRanges chunk r match nrange) =
     map_sum id fst (classRanges chunk r' match' nrange)"
proof (induction chunk r match nrange arbitrary: r' match' rule: classRanges.induct)
  case (1 chunk r match nrange)
  show ?case
  proof (cases "take 1 chunk = '']'' \<and> 0 < nrange")
    case True
    then show ?thesis by (simp add: classRanges.simps [of chunk])
  next
    case guard: False
    show ?thesis
    proof (cases "getEsc chunk")
      case (Inl e)
      with guard show ?thesis by (simp add: classRanges.simps [of chunk])
    next
      case esc: (Inr x)
      obtain lo chunk1 where x: "x = (lo, chunk1)" by (cases x)
      show ?thesis
      proof (cases "if take 1 chunk1 = ''-'' then getEsc (drop 1 chunk1) else Inr (lo, chunk1)")
        case (Inl e)
        with guard esc x show ?thesis by (simp add: classRanges.simps [of chunk])
      next
        case hi: (Inr y)
        obtain hi chunk2 where y: "y = (hi, chunk2)" by (cases y)
        have "map_sum id fst (classRanges chunk2 r (match \<or> lo \<le> r \<and> r \<le> hi) (Suc nrange)) =
              map_sum id fst (classRanges chunk2 r' (match' \<or> lo \<le> r' \<and> r' \<le> hi) (Suc nrange))"
          using "1.IH" [OF guard esc x [symmetric] hi y [symmetric]] by blast
        moreover have "\<And>\<rho> \<mu>. classRanges chunk \<rho> \<mu> nrange =
            classRanges chunk2 \<rho> (\<mu> \<or> lo \<le> \<rho> \<and> \<rho> \<le> hi) (Suc nrange)"
          using guard esc x hi y by (auto simp: classRanges.simps [of chunk])
        ultimately show ?thesis by metis
      qed
    qed
  qed
qed

section \<open>matchChunk\<close>

text \<open>
  The loop of \<open>matchChunk(chunk, s)\<close>. Its state is the rest of the chunk, the rest
  of the name and the flag \<open>failed\<close>; once the match has failed the loop goes on
  reading the chunk, to check that it is well formed, but no longer reads the name. At the
  head of each iteration \<open>failed\<close> is set when the name is used up, so the name is
  non-empty wherever it is read (\<open>hd s\<close>, \<open>tl s\<close> below). A character class
  decodes one rune of the name, or leaves \<open>r\<close> at its zero value when the match has
  already failed.
\<close>

function matchChunk_loop :: "string \<Rightarrow> string \<Rightarrow> bool \<Rightarrow> error + (string \<times> bool)" where
  "matchChunk_loop [] s failed0 = Inr (s, failed0)"
| "matchChunk_loop (c # cs) s failed0 =
     (let failed = (failed0 \<or> s = []) in
      if c = CHR ''['' then
        (let r = (if failed then CHR 0x00 else hd s);
             s' = (if failed then s else tl s);
             negated = (take 1 cs = ''^'');
             cls = (if negated then drop 1 cs else cs)
         in case classRanges cls r False 0 of
              Inl e \<Rightarrow> Inl e
            | Inr (chunk', match) \<Rightarrow> matchChunk_loop chunk' s' (failed \<or> match = negated))
      else if c = CHR ''?'' then
        (if failed then matchChunk_loop cs s failed
         else matchChunk_loop cs (tl s) (hd s = Separator))
      else if c = Backslash then
        (case cs of
           [] \<Rightarrow> Inl ErrBadPattern
         | c' # cs' \<Rightarrow>
             (if failed then matchChunk_loop cs' s failed
              else matchChunk_loop cs' (tl s) (c' \<noteq> hd s)))
      else
        (if failed then matchChunk_loop cs s failed
         else matchChunk_loop cs (tl s) (c \<noteq> hd s)))"
  by pat_completeness auto
termination
  by (relation "measure (\<lambda>(chunk, s, failed). length chunk)")
    (auto split: if_splits dest!: classRanges_shorter)


text \<open>
  Whether \<open>matchChunk\<close> fails with an error does not depend on the name: the loop
  reads the whole chunk in every run, and only the flag \<open>failed\<close> and the rune
  compared depend on the name. The canonical run is the one on the empty name with the
  match already failed.
\<close>

lemma matchChunk_loop_errors:
  "err_part (matchChunk_loop chunk s failed) = err_part (matchChunk_loop chunk [] True)"
proof (induction chunk s failed rule: matchChunk_loop.induct)
  case (1 s failed)
  then show ?case by simp
next
  case (2 c cs s failed)
  show ?case
  proof (cases "c = CHR ''[''")
    case True
    define F where "F = (failed \<or> s = [])"
    define r where "r = (if F then CHR 0x00 else hd s)"
    define s' where "s' = (if F then s else tl s)"
    define neg where "neg = (take 1 cs = ''^'')"
    define cls where "cls = (if neg then drop 1 cs else cs)"
    have shape: "map_sum id fst (classRanges cls r False 0) =
        map_sum id fst (classRanges cls (CHR 0x00) False 0)"
      by (rule classRanges_shape)
    show ?thesis
    proof (cases "classRanges cls r False 0")
      case (Inl e)
      with shape have cr0: "classRanges cls (CHR 0x00) False 0 = Inl e"
        by (cases "classRanges cls (CHR 0x00) False 0") auto
      have "matchChunk_loop (c # cs) s failed = Inl e"
        using True Inl unfolding F_def r_def neg_def cls_def by (simp add: Let_def)
      moreover have "matchChunk_loop (c # cs) [] True = Inl e"
        using True cr0 unfolding neg_def cls_def by (simp add: Let_def)
      ultimately show ?thesis by simp
    next
      case (Inr p)
      obtain chunk' match where p: "p = (chunk', match)" by (cases p)
      with Inr shape obtain match0 where cr0: "classRanges cls (CHR 0x00) False 0 = Inr (chunk', match0)"
        by (cases "classRanges cls (CHR 0x00) False 0") auto
      have "matchChunk_loop (c # cs) s failed = matchChunk_loop chunk' s' (F \<or> match = neg)"
        using True Inr p unfolding F_def r_def s'_def neg_def cls_def by (simp add: Let_def)
      moreover have "matchChunk_loop (c # cs) [] True = matchChunk_loop chunk' [] True"
        using True cr0 unfolding neg_def cls_def by (simp add: Let_def)
      moreover have "err_part (matchChunk_loop chunk' s' (F \<or> match = neg)) =
          err_part (matchChunk_loop chunk' [] True)"
        using "2.IH"(1) [OF F_def True r_def s'_def neg_def cls_def Inr p [symmetric]] by blast
      ultimately show ?thesis by (simp only:)
    qed
  next
    case False
    with "2.IH"(2-) show ?thesis
      by (auto simp: Let_def split: list.splits)
  qed
qed

text \<open>
  \<open>matchChunk\<close> returns the rest of the name when the chunk matches a prefix of it
  (\<open>Some rest\<close>, Go's \<open>(rest, true, nil)\<close>), \<open>None\<close> when it does not (Go's
  \<open>("", false, nil)\<close>), and the error of a malformed chunk.
\<close>

definition matchChunk :: "string \<Rightarrow> string \<Rightarrow> error + string option" where
  "matchChunk chunk s =
     (case matchChunk_loop chunk s False of
        Inl e \<Rightarrow> Inl e
      | Inr (rest, failed) \<Rightarrow> Inr (if failed then None else Some rest))"

lemma matchChunk_errors:
  "err_part (matchChunk chunk s) = err_part (matchChunk chunk [])"
proof -
  have "err_part (matchChunk_loop chunk s False) = err_part (matchChunk_loop chunk [] False)"
    using matchChunk_loop_errors [of chunk s False] matchChunk_loop_errors [of chunk "[]" False]
    by simp
  then show ?thesis
    by (auto simp: matchChunk_def split: sum.splits prod.splits)
qed

section \<open>scanChunk\<close>

text \<open>
  \<open>scanChunk(pattern)\<close> skips leading stars (\<open>star\<close> records whether there were
  any) and then scans up to the next star outside a character class; a backslash
  escapes the character after it. It returns the star flag, the chunk and the rest of
  the pattern (\<open>pattern[0:i]\<close> and \<open>pattern[i:]\<close> in Go).
\<close>

fun skipStars :: "string \<Rightarrow> bool \<Rightarrow> bool \<times> string" where
  "skipStars [] star = (star, [])"
| "skipStars (c # cs) star = (if c = CHR ''*'' then skipStars cs True else (star, c # cs))"

fun scanBody :: "string \<Rightarrow> bool \<Rightarrow> string \<times> string" where
  "scanBody [] inrange = ([], [])"
| "scanBody (c # cs) inrange =
     (if c = Backslash then
        (case cs of
           [] \<Rightarrow> ([c], [])
         | d # ds \<Rightarrow> (let (ch, rest) = scanBody ds inrange in (c # d # ch, rest)))
      else if c = CHR ''['' then (let (ch, rest) = scanBody cs True in (c # ch, rest))
      else if c = CHR '']'' then (let (ch, rest) = scanBody cs False in (c # ch, rest))
      else if c = CHR ''*'' \<and> \<not> inrange then ([], c # cs)
      else (let (ch, rest) = scanBody cs inrange in (c # ch, rest)))"

definition scanChunk :: "string \<Rightarrow> bool \<times> string \<times> string" where
  "scanChunk pattern =
     (let (star, p) = skipStars pattern False;
          (chunk, rest) = scanBody p False
      in (star, chunk, rest))"

lemma skipStars_suffix:
  "skipStars p star0 = (star, p') \<Longrightarrow>
     length p' \<le> length p \<and> (star = (star0 \<or> length p' < length p)) \<and> take 1 p' \<noteq> ''*''"
  by (induction p star0 rule: skipStars.induct) (auto split: if_splits)

lemma scanBody_append:
  "scanBody p inrange = (chunk, rest) \<Longrightarrow> chunk @ rest = p"
  by (induction p inrange arbitrary: chunk rest rule: scanBody.induct)
    (auto split: if_splits list.splits prod.splits)

lemma scanBody_Nil_chunk:
  "scanBody p False = ([], rest) \<Longrightarrow> take 1 p \<noteq> ''*'' \<Longrightarrow> p = []"
  by (cases p) (auto split: if_splits list.splits prod.splits)

lemma scanChunk_append:
  assumes "scanChunk pattern = (star, chunk, rest)"
  shows "length (chunk @ rest) \<le> length pattern"
    and "star \<or> chunk \<noteq> [] \<or> pattern = []"
    and "chunk = [] \<Longrightarrow> rest = []"
proof -
  obtain p where sk: "skipStars pattern False = (star, p)" and sb: "scanBody p False = (chunk, rest)"
    using assms by (auto simp: scanChunk_def split: prod.splits)
  from sk have p: "length p \<le> length pattern" "star = (length p < length pattern)" "take 1 p \<noteq> ''*''"
    using skipStars_suffix by blast+
  from sb have cr: "chunk @ rest = p"
    by (rule scanBody_append)
  with p show "length (chunk @ rest) \<le> length pattern" by simp
  show "star \<or> chunk \<noteq> [] \<or> pattern = []"
    using p cr sb scanBody_Nil_chunk by fastforce
  show "rest = []" if "chunk = []"
    using that sb p(3) scanBody_Nil_chunk cr by fastforce
qed

lemma scanChunk_shorter:
  "scanChunk pattern = (star, chunk, rest) \<Longrightarrow> pattern \<noteq> [] \<Longrightarrow> length rest < length pattern"
proof -
  assume sc: "scanChunk pattern = (star, chunk, rest)" and ne: "pattern \<noteq> []"
  obtain p where sk: "skipStars pattern False = (star, p)" and sb: "scanBody p False = (chunk, rest)"
    using sc by (auto simp: scanChunk_def split: prod.splits)
  from sk have "length p \<le> length pattern" "star = (length p < length pattern)"
    using skipStars_suffix by blast+
  moreover from sb have "chunk @ rest = p"
    by (rule scanBody_append)
  moreover from sc ne have "star \<or> chunk \<noteq> []"
    using scanChunk_append(2) by blast
  ultimately show ?thesis by (cases chunk) auto
qed

section \<open>Match\<close>

text \<open>
  The star search of \<open>Match\<close>: after a star, the chunk is tried at positions
  \<open>i + 1\<close> of the name for \<open>i\<close> below the first separator (a star never matches
  a \<open>/\<close>). \<open>Inr (Some t)\<close> continues the \<open>Pattern\<close> loop with the name
  \<open>t\<close>; \<open>Inr None\<close> leaves the loop with no match found; the last chunk must use
  up the name.
\<close>

fun starScan :: "string \<Rightarrow> string \<Rightarrow> string \<Rightarrow> error + string option" where
  "starScan chunk pattern [] = Inr None"
| "starScan chunk pattern (c # cs) =
     (if c = Separator then Inr None
      else (case matchChunk chunk cs of
              Inl e \<Rightarrow> Inl e
            | Inr None \<Rightarrow> starScan chunk pattern cs
            | Inr (Some t) \<Rightarrow>
                if pattern = [] \<and> t \<noteq> [] then starScan chunk pattern cs else Inr (Some t)))"

text \<open>
  Before \<open>Match\<close> returns \<open>false\<close> without an error it checks that the rest of
  the pattern is well formed, by matching each of its chunks against the empty name.
\<close>

function checkRest :: "string \<Rightarrow> error + bool" where
  "checkRest pattern =
     (if pattern = [] then Inr False
      else (case scanChunk pattern of
              (star, chunk, rest) \<Rightarrow>
                (case matchChunk chunk [] of
                   Inl e \<Rightarrow> Inl e
                 | Inr _ \<Rightarrow> checkRest rest)))"
  by pat_completeness auto
termination
  by (relation "measure length") (auto dest: scanChunk_shorter [OF sym])

declare checkRest.simps [simp del]

text \<open>
  One iteration of the \<open>Pattern\<close> loop for a chunk that is not a trailing star: the
  chunk at the current position, and then, after a star, the star search. The result
  says how the loop goes on, as for \<open>starScan\<close>.
\<close>

definition chunkStep :: "bool \<Rightarrow> string \<Rightarrow> string \<Rightarrow> string \<Rightarrow> error + string option" where
  "chunkStep star chunk pattern name =
     (case matchChunk chunk name of
        Inl e \<Rightarrow> Inl e
      | Inr (Some t) \<Rightarrow>
          if t = [] \<or> pattern \<noteq> [] then Inr (Some t)
          else if star then starScan chunk pattern name else Inr None
      | Inr None \<Rightarrow> if star then starScan chunk pattern name else Inr None)"

function Match :: "string \<Rightarrow> string \<Rightarrow> error + bool" where
  "Match pattern name =
     (if pattern = [] then Inr (name = [])
      else (case scanChunk pattern of
              (star, chunk, rest) \<Rightarrow>
                if star \<and> chunk = [] then Inr (Separator \<notin> set name)
                else (case chunkStep star chunk rest name of
                        Inl e \<Rightarrow> Inl e
                      | Inr (Some t) \<Rightarrow> Match rest t
                      | Inr None \<Rightarrow> checkRest rest)))"
  by pat_completeness auto
termination
  by (relation "measure (\<lambda>(pattern, name). length pattern)") (auto dest: scanChunk_shorter [OF sym])

declare Match.simps [simp del]

lemmas glob_eval [model_simps] =
  getEsc_def classRanges.simps matchChunk_def scanChunk_def
  checkRest.simps chunkStep_def Match.simps

section \<open>Errors of Match do not depend on the name\<close>

lemma matchChunk_no_error:
  "matchChunk chunk [] = Inr y \<Longrightarrow> \<exists>x. matchChunk chunk s = Inr x"
  using matchChunk_errors [of chunk s] by (cases "matchChunk chunk s") auto

lemma starScan_no_error:
  "matchChunk chunk [] = Inr y \<Longrightarrow> \<exists>z. starScan chunk pattern name = Inr z"
proof (induction name)
  case Nil
  then show ?case by simp
next
  case (Cons c cs)
  from Cons.prems obtain x where "matchChunk chunk cs = Inr x"
    using matchChunk_no_error by blast
  with Cons show ?case by (auto split: option.splits)
qed

lemma chunkStep_no_error:
  "matchChunk chunk [] = Inr y \<Longrightarrow> \<exists>z. chunkStep star chunk pattern name = Inr z"
  using matchChunk_no_error [of chunk y name] starScan_no_error [of chunk y pattern name]
  by (auto simp: chunkStep_def split: option.splits)

lemma Match_Nil [simp]: "Match [] name = Inr (name = [])"
  by (simp add: Match.simps)

lemma checkRest_Nil [simp]: "checkRest [] = Inr False"
  by (simp add: checkRest.simps)

lemma matchChunk_Nil_Nil [simp]: "matchChunk [] [] = Inr (Some [])"
  by (simp add: matchChunk_def)

text \<open>
  \<open>Match\<close> fails exactly when \<open>checkRest\<close>, which reads every chunk of the pattern
  against the empty name, fails, and then with the same error: every chunk that the
  \<open>Pattern\<close> loop does not reach is checked by \<open>checkRest\<close>, and every chunk it
  reaches fails or not independently of the name (\<open>matchChunk_errors\<close>).
\<close>

lemma Match_errors:
  "err_part (Match pattern name) = err_part (checkRest pattern)"
proof (induction pattern name rule: Match.induct)
  case (1 pattern name)
  show ?case
  proof (cases "pattern = []")
    case True
    then show ?thesis by (simp add: Match.simps)
  next
    case ne: False
    obtain star chunk rest where sc: "scanChunk pattern = (star, chunk, rest)"
      by (cases "scanChunk pattern") auto
    show ?thesis
    proof (cases "star \<and> chunk = []")
      case True
      with sc have "rest = []"
        using scanChunk_append(3) by blast
      with True ne sc show ?thesis
        by (simp add: Match.simps [of pattern] checkRest.simps [of pattern])
    next
      case nt: False
      show ?thesis
      proof (cases "matchChunk chunk name")
        case (Inl e)
        then have "matchChunk chunk [] = Inl e"
          using matchChunk_errors [of chunk name] by (cases "matchChunk chunk []") auto
        with Inl ne sc nt show ?thesis
          by (simp add: Match.simps [of pattern] checkRest.simps [of pattern] chunkStep_def)
      next
        case (Inr x)
        then obtain y where y: "matchChunk chunk [] = Inr y"
          using matchChunk_errors [of chunk name] by (cases "matchChunk chunk []") auto
        then have cr: "checkRest pattern = checkRest rest"
          using ne sc by (simp add: checkRest.simps [of pattern])
        from y obtain z where z: "chunkStep star chunk rest name = Inr z"
          using chunkStep_no_error by blast
        show ?thesis
        proof (cases z)
          case None
          with z ne sc nt cr show ?thesis
            by (auto simp: Match.simps [of pattern])
        next
          case (Some t)
          have "err_part (Match rest t) = err_part (checkRest rest)"
            using "1.IH" [OF ne sc [symmetric] refl nt z Some] .
          with z Some ne sc nt cr show ?thesis
            by (auto simp: Match.simps [of pattern])
        qed
      qed
    qed
  qed
qed

corollary Match_errors_name_independent:
  "err_part (Match pattern name) = err_part (Match pattern name')"
  by (simp only: Match_errors)

text \<open>The only error of \<open>Match\<close> is \<open>ErrBadPattern\<close>.\<close>

lemma getEsc_error: "getEsc chunk = Inl e \<Longrightarrow> e = ErrBadPattern"
  by (auto simp: getEsc_def split: list.splits if_splits)

lemma classRanges_error: "classRanges chunk r match nrange = Inl e \<Longrightarrow> e = ErrBadPattern"
proof (induction chunk r match nrange rule: classRanges.induct)
  case (1 chunk r match nrange)
  then show ?case
    by (auto simp: classRanges.simps [of chunk] split: if_splits sum.splits prod.splits
        dest: getEsc_error)
qed

lemma matchChunk_loop_canonical_error:
  "matchChunk_loop chunk [] True = Inl e \<Longrightarrow> e = ErrBadPattern"
proof (induction "length chunk" arbitrary: chunk rule: less_induct)
  case less
  show ?case
  proof (cases chunk)
    case Nil
    with less.prems show ?thesis by simp
  next
    case (Cons c cs)
    show ?thesis
    proof (cases "c = CHR ''[''")
      case True
      define cls where "cls = (if take 1 cs = ''^'' then drop 1 cs else cs)"
      show ?thesis
      proof (cases "classRanges cls (CHR 0x00) False 0")
        case (Inl e')
        with less.prems Cons True have "e = e'"
          by (simp add: cls_def Let_def)
        with Inl show ?thesis
          using classRanges_error by blast
      next
        case (Inr p)
        obtain chunk' match where p: "p = (chunk', match)" by (cases p)
        with Inr less.prems Cons True have "matchChunk_loop chunk' [] True = Inl e"
          by (simp add: cls_def Let_def)
        moreover have "length chunk' < length cls"
          using Inr p classRanges_shorter by blast
        then have "length chunk' < length chunk"
          using Cons by (simp add: cls_def split: if_splits)
        ultimately show ?thesis
          using less.hyps by blast
      qed
    next
      case False
      consider (any) "c = CHR ''?''" | (esc) "c = Backslash" | (lit) "c \<noteq> CHR ''?''" "c \<noteq> Backslash"
        by blast
      then show ?thesis
      proof cases
        case any
        with False less.prems Cons have "matchChunk_loop cs [] True = Inl e"
          by (simp add: Let_def)
        with Cons show ?thesis
          using less.hyps [of cs] by simp
      next
        case esc
        show ?thesis
        proof (cases cs)
          case Nil
          with esc less.prems Cons show ?thesis
            by (simp add: Let_def)
        next
          case (Cons c' cs')
          with esc less.prems \<open>chunk = c # cs\<close> have "matchChunk_loop cs' [] True = Inl e"
            by (simp add: Let_def)
          with Cons \<open>chunk = c # cs\<close> show ?thesis
            using less.hyps [of cs'] by simp
        qed
      next
        case lit
        with False less.prems Cons have "matchChunk_loop cs [] True = Inl e"
          by (simp add: Let_def)
        with Cons show ?thesis
          using less.hyps [of cs] by simp
      qed
    qed
  qed
qed

lemma matchChunk_loop_error:
  assumes "matchChunk_loop chunk s failed = Inl e"
  shows "e = ErrBadPattern"
proof -
  from assms have "err_part (matchChunk_loop chunk s failed) = Inl e"
    by simp
  then have "err_part (matchChunk_loop chunk [] True) = Inl e"
    using trans [OF matchChunk_loop_errors [of chunk s failed, symmetric]] by blast
  then show ?thesis
    using matchChunk_loop_canonical_error by simp
qed

lemma checkRest_error: "checkRest pattern = Inl e \<Longrightarrow> e = ErrBadPattern"
proof (induction pattern rule: checkRest.induct)
  case (1 pattern)
  then show ?case
    by (auto simp: checkRest.simps [of pattern] matchChunk_def split: if_splits sum.splits prod.splits
        dest: matchChunk_loop_error)
qed

lemma Match_error: "Match pattern name = Inl e \<Longrightarrow> e = ErrBadPattern"
  using Match_errors [of pattern name] checkRest_error [of pattern e]
  by (cases "checkRest pattern") auto

section \<open>Patterns without metacharacters\<close>

definition literal :: "string \<Rightarrow> bool" where
  "literal p \<longleftrightarrow> list_all (\<lambda>c. c \<notin> {CHR ''*'', CHR ''?'', CHR ''['', Backslash}) p"

lemma matchChunk_loop_literal_failed:
  "literal chunk \<Longrightarrow> matchChunk_loop chunk s True = Inr (s, True)"
  by (induction chunk) (auto simp: literal_def)

lemma matchChunk_literal:
  "literal chunk \<Longrightarrow>
     matchChunk chunk s = Inr (if prefix chunk s then Some (drop (length chunk) s) else None)"
proof (induction chunk arbitrary: s)
  case Nil
  then show ?case by (simp add: matchChunk_def)
next
  case (Cons c cs)
  then have lit: "literal cs" and meta: "c \<notin> {CHR ''*'', CHR ''?'', CHR ''['', Backslash}"
    by (simp_all add: literal_def)
  show ?case
  proof (cases s)
    case Nil
    with lit meta show ?thesis
      by (simp add: matchChunk_def matchChunk_loop_literal_failed)
  next
    case (Cons d ds)
    show ?thesis
    proof (cases "c = d")
      case True
      with Cons lit meta Cons.IH [OF lit, of ds] show ?thesis
        by (simp add: matchChunk_def split: sum.splits prod.splits)
    next
      case False
      with Cons lit meta show ?thesis
        by (simp add: matchChunk_def matchChunk_loop_literal_failed)
    qed
  qed
qed

lemma skipStars_literal: "literal p \<Longrightarrow> skipStars p False = (False, p)"
  by (cases p) (simp_all add: literal_def)

lemma scanBody_literal: "literal p \<Longrightarrow> scanBody p False = (p, [])"
  by (induction p) (auto simp: literal_def)

lemma scanChunk_literal: "literal p \<Longrightarrow> scanChunk p = (False, p, [])"
  by (simp add: scanChunk_def skipStars_literal scanBody_literal)

text \<open>
  A pattern without metacharacters (\<open>*\<close>, \<open>?\<close>, \<open>[\<close>, backslash) matches
  exactly the name equal to it, and never fails.
\<close>

lemma Match_literal:
  assumes lit: "literal pattern"
  shows "Match pattern name = Inr (name = pattern)"
proof (cases "pattern = []")
  case True
  then show ?thesis by simp
next
  case False
  have step: "chunkStep False pattern [] name =
      (if prefix pattern name \<and> drop (length pattern) name = [] then Inr (Some []) else Inr None)"
    using lit by (simp add: chunkStep_def matchChunk_literal)
  have "prefix pattern name \<and> drop (length pattern) name = [] \<longleftrightarrow> name = pattern"
    by (auto simp: prefix_def)
  with False lit step show ?thesis
    by (auto simp: Match.simps [of pattern] scanChunk_literal)
qed

section \<open>Two patterns of the spec\<close>

text \<open>An unterminated character class is malformed, whatever the name.\<close>

lemma Match_unterminated_class: "Match ''['' name = Inl ErrBadPattern"
  by (simp add: Match.simps scanChunk_def chunkStep_def matchChunk_def classRanges.simps
      getEsc_def Let_def)

text \<open>A star matches exactly the names without a separator.\<close>

lemma Match_star: "Match ''*'' name = Inr (Separator \<notin> set name)"
  by (simp add: Match.simps scanChunk_def)

end
