(* ===== verification/GlobSpec.thy ===== *)
theory GlobSpec
  imports Glob
begin

text \<open>
  The glob semantics the spec (section 4.1) states for \<open>GetAll\<close>: \<open>*\<close> matches any
  sequence of non-separator characters, \<open>?\<close> one non-separator character, a class
  \<open>[...]\<close> one character in (or, negated, not in) its ranges, any other character
  itself. A pattern is read into a list of items (\<open>parse_glob\<close>, with Go's own
  tokenizer \<open>scanChunk\<close> and the class syntax of \<open>matchChunk\<close>); its language
  (\<open>glob_lang\<close>) is the set of concatenations of one word per item, and \<open>gmatch\<close>
  decides membership by backtracking over the splits a star allows. The theorems show
  that Go's \<open>Match\<close>, which commits to the first position where a chunk after a star
  fits, decides the same language when no class of the pattern contains the separator
  (\<open>Match_gmatch\<close>, \<open>Match_glob_lang\<close>); \<open>Store\<close> shows by example that it
  does not when one does.
\<close>

section \<open>Items and their language\<close>

datatype gitem = GStar | GAny | GLit char | GClass bool "(char \<times> char) list"

definition in_ranges :: "(char \<times> char) list \<Rightarrow> char \<Rightarrow> bool" where
  "in_ranges rs c = list_ex (\<lambda>(lo, hi). lo \<le> c \<and> c \<le> hi) rs"

text \<open>Whether a one-character item accepts a character.\<close>

fun gone :: "gitem \<Rightarrow> char \<Rightarrow> bool" where
  "gone GStar c = False"
| "gone GAny c = (c \<noteq> Separator)"
| "gone (GLit d) c = (c = d)"
| "gone (GClass negated rs) c = (in_ranges rs c \<noteq> negated)"

fun item_lang :: "gitem \<Rightarrow> string set" where
  "item_lang GStar = {w. Separator \<notin> set w}"
| "item_lang i = {[c] | c. gone i c}"

primrec glob_lang :: "gitem list \<Rightarrow> string set" where
  "glob_lang [] = {[]}"
| "glob_lang (i # is) = {u @ v | u v. u \<in> item_lang i \<and> v \<in> glob_lang is}"

text \<open>Membership by backtracking: a star first matches nothing, then one more character.\<close>

fun gmatch :: "gitem list \<Rightarrow> string \<Rightarrow> bool" where
  "gmatch [] s = (s = [])"
| "gmatch (GStar # ps) [] = gmatch ps []"
| "gmatch (GStar # ps) (c # cs) = (gmatch ps (c # cs) \<or> (c \<noteq> Separator \<and> gmatch (GStar # ps) cs))"
| "gmatch (i # ps) [] = False"
| "gmatch (i # ps) (c # cs) = (gone i c \<and> gmatch ps cs)"

text \<open>A pattern whose classes never accept the separator.\<close>

fun sep_free :: "gitem \<Rightarrow> bool" where
  "sep_free (GClass negated rs) = (in_ranges rs Separator = negated)"
| "sep_free _ = True"

section \<open>Reading a pattern\<close>

text \<open>The ranges of a class, read as \<open>classRanges\<close> reads them.\<close>

function parse_ranges :: "string \<Rightarrow> nat \<Rightarrow> error + ((char \<times> char) list \<times> string)" where
  "parse_ranges chunk nrange =
     (if take 1 chunk = '']'' \<and> 0 < nrange then Inr ([], drop 1 chunk)
      else (case getEsc chunk of
              Inl e \<Rightarrow> Inl e
            | Inr (lo, chunk1) \<Rightarrow>
                (case (if take 1 chunk1 = ''-'' then getEsc (drop 1 chunk1) else Inr (lo, chunk1)) of
                   Inl e \<Rightarrow> Inl e
                 | Inr (hi, chunk2) \<Rightarrow>
                     (case parse_ranges chunk2 (Suc nrange) of
                        Inl e \<Rightarrow> Inl e
                      | Inr (rs, rest) \<Rightarrow> Inr ((lo, hi) # rs, rest)))))"
  by pat_completeness auto
termination
  by (relation "measure (\<lambda>(chunk, nrange). length chunk)")
    (force split: if_splits dest: getEsc_shorter)+

declare parse_ranges.simps [simp del]

lemma in_ranges_Cons [simp]: "in_ranges ((lo, hi) # rs) c = (lo \<le> c \<and> c \<le> hi \<or> in_ranges rs c)"
  by (simp add: in_ranges_def)

lemma in_ranges_Nil [simp]: "\<not> in_ranges [] c"
  by (simp add: in_ranges_def)

lemma classRanges_parse:
  "classRanges chunk r match nrange =
     (case parse_ranges chunk nrange of
        Inl e \<Rightarrow> Inl e
      | Inr (rs, rest) \<Rightarrow> Inr (rest, match \<or> in_ranges rs r))"
proof (induction chunk nrange arbitrary: match rule: parse_ranges.induct)
  case (1 chunk nrange)
  show ?case
  proof (cases "take 1 chunk = '']'' \<and> 0 < nrange")
    case True
    then show ?thesis
      by (simp add: classRanges.simps [of chunk] parse_ranges.simps [of chunk])
  next
    case guard: False
    show ?thesis
    proof (cases "getEsc chunk")
      case (Inl e)
      with guard show ?thesis
        by (simp add: classRanges.simps [of chunk] parse_ranges.simps [of chunk])
    next
      case esc: (Inr x)
      obtain lo chunk1 where x: "x = (lo, chunk1)" by (cases x)
      show ?thesis
      proof (cases "if take 1 chunk1 = ''-'' then getEsc (drop 1 chunk1) else Inr (lo, chunk1)")
        case (Inl e)
        with guard esc x show ?thesis
          by (simp add: classRanges.simps [of chunk] parse_ranges.simps [of chunk])
      next
        case hi: (Inr y)
        obtain hi chunk2 where y: "y = (hi, chunk2)" by (cases y)
        have IH: "classRanges chunk2 r (match \<or> lo \<le> r \<and> r \<le> hi) (Suc nrange) =
            (case parse_ranges chunk2 (Suc nrange) of
               Inl e \<Rightarrow> Inl e
             | Inr (rs, rest) \<Rightarrow> Inr (rest, (match \<or> lo \<le> r \<and> r \<le> hi) \<or> in_ranges rs r))"
          using "1.IH" [OF guard esc x [symmetric] hi y [symmetric]] by blast
        have c: "classRanges chunk r match nrange = classRanges chunk2 r (match \<or> lo \<le> r \<and> r \<le> hi) (Suc nrange)"
          using guard esc x hi y by (auto simp: classRanges.simps [of chunk])
        have p: "parse_ranges chunk nrange =
            (case parse_ranges chunk2 (Suc nrange) of
               Inl e \<Rightarrow> Inl e
             | Inr (rs, rest) \<Rightarrow> Inr ((lo, hi) # rs, rest))"
          using guard esc x hi y by (auto simp: parse_ranges.simps [of chunk])
        show ?thesis
          unfolding c p IH by (auto split: sum.splits)
      qed
    qed
  qed
qed

lemma parse_ranges_shorter:
  "parse_ranges chunk nrange = Inr (rs, rest) \<Longrightarrow> length rest < length chunk"
  using classRanges_shorter [of chunk "CHR 0x00" False nrange rest] classRanges_parse [of chunk "CHR 0x00" False nrange]
  by simp

lemma glob_lang_one:
  assumes "i \<noteq> GStar"
  shows "glob_lang (i # ps) = {c # w | c w. gone i c \<and> w \<in> glob_lang ps}"
proof -
  have il: "item_lang i = {[c] | c. gone i c}"
    using assms by (cases i) auto
  show ?thesis
  proof (intro equalityI subsetI)
    fix x
    assume "x \<in> glob_lang (i # ps)"
    then show "x \<in> {c # w | c w. gone i c \<and> w \<in> glob_lang ps}"
      by (auto simp: il)
  next
    fix x
    assume "x \<in> {c # w | c w. gone i c \<and> w \<in> glob_lang ps}"
    then obtain c w where "x = [c] @ w" "gone i c" "w \<in> glob_lang ps"
      by auto
    then show "x \<in> glob_lang (i # ps)"
      unfolding glob_lang.simps il by blast
  qed
qed

lemma gmatch_lang: "gmatch ps s \<longleftrightarrow> s \<in> glob_lang ps"
proof (induction ps s rule: gmatch.induct)
  case (2 ps)
  then show ?case
    by simp
next
  case (3 ps c cs)
  have "c # cs \<in> glob_lang (GStar # ps) \<longleftrightarrow>
        c # cs \<in> glob_lang ps \<or> (c \<noteq> Separator \<and> cs \<in> glob_lang (GStar # ps))"
  proof
    assume "c # cs \<in> glob_lang (GStar # ps)"
    then obtain u v where uv: "c # cs = u @ v" "Separator \<notin> set u" "v \<in> glob_lang ps"
      by auto
    then show "c # cs \<in> glob_lang ps \<or> (c \<noteq> Separator \<and> cs \<in> glob_lang (GStar # ps))"
      by (cases u) auto
  next
    assume "c # cs \<in> glob_lang ps \<or> (c \<noteq> Separator \<and> cs \<in> glob_lang (GStar # ps))"
    then show "c # cs \<in> glob_lang (GStar # ps)"
    proof
      assume "c # cs \<in> glob_lang ps"
      then show ?thesis
        by force
    next
      assume "c \<noteq> Separator \<and> cs \<in> glob_lang (GStar # ps)"
      then obtain u v where "cs = u @ v" "Separator \<notin> set u" "v \<in> glob_lang ps" "c \<noteq> Separator"
        by auto
      then show ?thesis
        unfolding glob_lang.simps
        by (intro CollectI exI [of _ "c # u"] exI [of _ v]) auto
    qed
  qed
  with 3 show ?case
    by simp
qed (simp_all add: glob_lang_one del: glob_lang.simps(2))

text \<open>The items of a chunk, read as \<open>matchChunk\<close> reads them.\<close>

function parse_chunk :: "string \<Rightarrow> error + gitem list" where
  "parse_chunk [] = Inr []"
| "parse_chunk (c # cs) =
     (if c = CHR ''['' then
        (let negated = (take 1 cs = ''^'');
             cls = (if negated then drop 1 cs else cs)
         in case parse_ranges cls 0 of
              Inl e \<Rightarrow> Inl e
            | Inr (rs, rest) \<Rightarrow>
                (case parse_chunk rest of Inl e \<Rightarrow> Inl e | Inr its \<Rightarrow> Inr (GClass negated rs # its)))
      else if c = CHR ''?'' then
        (case parse_chunk cs of Inl e \<Rightarrow> Inl e | Inr its \<Rightarrow> Inr (GAny # its))
      else if c = Backslash then
        (case cs of
           [] \<Rightarrow> Inl ErrBadPattern
         | c' # cs' \<Rightarrow> (case parse_chunk cs' of Inl e \<Rightarrow> Inl e | Inr its \<Rightarrow> Inr (GLit c' # its)))
      else (case parse_chunk cs of Inl e \<Rightarrow> Inl e | Inr its \<Rightarrow> Inr (GLit c # its)))"
  by pat_completeness auto
termination
  by (relation "measure length") (auto split: if_splits dest!: parse_ranges_shorter)

text \<open>A list of one-character items matches a prefix of a name.\<close>

fun pmatch :: "gitem list \<Rightarrow> string \<Rightarrow> bool" where
  "pmatch [] s = True"
| "pmatch (i # is) [] = False"
| "pmatch (i # is) (c # cs) = (gone i c \<and> pmatch is cs)"

lemma parse_chunk_Cons_ne: "parse_chunk (c # cs) = Inr its \<Longrightarrow> its \<noteq> []"
  by (auto simp: Let_def split: if_splits sum.splits prod.splits list.splits)

lemma matchChunk_loop_parse:
  assumes "parse_chunk c = Inr its"
  shows "\<exists>r. matchChunk_loop c s f = Inr (r, f \<or> \<not> pmatch its s) \<and>
             (f \<or> \<not> pmatch its s \<or> r = drop (length its) s)"
  using assms
proof (induction "length c" arbitrary: c its s f rule: less_induct)
  case less
  show ?case
  proof (cases c)
    case Nil
    with less.prems show ?thesis
      by simp
  next
    case (Cons ch cs)
    have ne: "its \<noteq> []"
      using less.prems Cons parse_chunk_Cons_ne by blast
    let ?failed = "f \<or> s = []"
    have fl: "?failed \<Longrightarrow> f \<or> \<not> pmatch its s"
      using ne by (cases its) auto
    show ?thesis
    proof (cases "ch = CHR ''[''")
      case True
      define negated where "negated = (take 1 cs = ''^'')"
      define cls where "cls = (if negated then drop 1 cs else cs)"
      from less.prems Cons True obtain rs rest its' where
        pr: "parse_ranges cls 0 = Inr (rs, rest)" and pc: "parse_chunk rest = Inr its'"
        and its: "its = GClass negated rs # its'"
        by (auto simp: Let_def negated_def cls_def split: sum.splits prod.splits)
      have shorter: "length rest < length c"
        using parse_ranges_shorter [OF pr] Cons by (auto simp: cls_def split: if_splits)
      let ?r = "if ?failed then CHR 0x00 else hd s"
      let ?s' = "if ?failed then s else tl s"
      have cr: "classRanges cls ?r False 0 = Inr (rest, in_ranges rs ?r)"
        using pr by (simp add: classRanges_parse)
      have step: "matchChunk_loop c s f = matchChunk_loop rest ?s' (?failed \<or> in_ranges rs ?r = negated)"
        using Cons True cr by (simp add: Let_def negated_def cls_def)
      obtain r where r: "matchChunk_loop rest ?s' (?failed \<or> in_ranges rs ?r = negated) =
          Inr (r, (?failed \<or> in_ranges rs ?r = negated) \<or> \<not> pmatch its' ?s')"
        and rr: "(?failed \<or> in_ranges rs ?r = negated) \<or> \<not> pmatch its' ?s' \<or> r = drop (length its') ?s'"
        using less.hyps [OF shorter pc] by blast
      show ?thesis
      proof (cases ?failed)
        case True
        with step r fl show ?thesis
          by auto
      next
        case False
        then obtain x xs where s: "s = x # xs" and nf: "\<not> f"
          by (cases s) auto
        with step r rr show ?thesis
          by (auto simp: its)
      qed
    next
      case nb: False
      show ?thesis
      proof (cases "ch = CHR ''?''")
        case True
        from less.prems Cons True have "ch \<noteq> CHR ''[''" by simp
        from less.prems Cons True obtain its' where pc: "parse_chunk cs = Inr its'"
          and its: "its = GAny # its'"
          by (auto split: sum.splits)
        have shorter: "length cs < length c"
          using Cons by simp
        show ?thesis
        proof (cases ?failed)
          case True
          then have "matchChunk_loop c s f = matchChunk_loop cs s True"
            using Cons \<open>ch = CHR ''?''\<close> by (auto simp: Let_def)
          with less.hyps [OF shorter pc, of s True] fl True show ?thesis
            by auto
        next
          case False
          then obtain x xs where s: "s = x # xs" and nf: "\<not> f"
            by (cases s) auto
          then have "matchChunk_loop c s f = matchChunk_loop cs xs (x = Separator)"
            using Cons \<open>ch = CHR ''?''\<close> by (simp add: Let_def)
          with less.hyps [OF shorter pc, of xs "x = Separator"] s nf show ?thesis
            by (auto simp: its)
        qed
      next
        case nq: False
        show ?thesis
        proof (cases "ch = Backslash")
          case True
          from less.prems Cons True nb nq obtain c' cs' its' where cs: "cs = c' # cs'"
            and pc: "parse_chunk cs' = Inr its'" and its: "its = GLit c' # its'"
            by (auto split: sum.splits list.splits)
          have shorter: "length cs' < length c"
            using Cons cs by simp
          show ?thesis
          proof (cases ?failed)
            case True
            then have "matchChunk_loop c s f = matchChunk_loop cs' s True"
              using Cons cs \<open>ch = Backslash\<close> by (auto simp: Let_def)
            with less.hyps [OF shorter pc, of s True] fl True show ?thesis
              by auto
          next
            case False
            then obtain x xs where s: "s = x # xs" and nf: "\<not> f"
              by (cases s) auto
            then have "matchChunk_loop c s f = matchChunk_loop cs' xs (c' \<noteq> x)"
              using Cons cs \<open>ch = Backslash\<close> by (simp add: Let_def)
            with less.hyps [OF shorter pc, of xs "c' \<noteq> x"] s nf show ?thesis
              by (auto simp: its)
          qed
        next
          case nbs: False
          from less.prems Cons nb nq nbs obtain its' where pc: "parse_chunk cs = Inr its'"
            and its: "its = GLit ch # its'"
            by (auto split: sum.splits)
          have shorter: "length cs < length c"
            using Cons by simp
          show ?thesis
          proof (cases ?failed)
            case True
            then have "matchChunk_loop c s f = matchChunk_loop cs s True"
              using Cons nb nq nbs by (auto simp: Let_def)
            with less.hyps [OF shorter pc, of s True] fl True show ?thesis
              by auto
          next
            case False
            then obtain x xs where s: "s = x # xs" and nf: "\<not> f"
              by (cases s) auto
            then have "matchChunk_loop c s f = matchChunk_loop cs xs (ch \<noteq> x)"
              using Cons nb nq nbs by (simp add: Let_def)
            with less.hyps [OF shorter pc, of xs "ch \<noteq> x"] s nf show ?thesis
              by (auto simp: its)
          qed
        qed
      qed
    qed
  qed
qed

lemma matchChunk_parse:
  "parse_chunk c = Inr its \<Longrightarrow>
   matchChunk c s = Inr (if pmatch its s then Some (drop (length its) s) else None)"
  using matchChunk_loop_parse [of c its s False] by (auto simp: matchChunk_def)

text \<open>The items of a whole pattern, chunk by chunk as \<open>scanChunk\<close> cuts it.\<close>

function parse_glob :: "string \<Rightarrow> error + gitem list" where
  "parse_glob pattern =
     (if pattern = [] then Inr []
      else (case scanChunk pattern of
              (star, chunk, rest) \<Rightarrow>
                (case parse_chunk chunk of
                   Inl e \<Rightarrow> Inl e
                 | Inr its \<Rightarrow>
                     (case parse_glob rest of
                        Inl e \<Rightarrow> Inl e
                      | Inr gs \<Rightarrow> Inr ((if star then [GStar] else []) @ its @ gs)))))"
  by pat_completeness auto
termination
  by (relation "measure length") (auto dest: scanChunk_shorter [OF sym])

declare parse_glob.simps [simp del]

lemma parse_glob_Nil [simp]: "parse_glob [] = Inr []"
  by (simp add: parse_glob.simps)

lemma parse_glob_chunk:
  assumes "parse_glob pattern = Inr items" "pattern \<noteq> []" "scanChunk pattern = (star, chunk, rest)"
  obtains its gs where "parse_chunk chunk = Inr its" "parse_glob rest = Inr gs"
    "items = (if star then [GStar] else []) @ its @ gs"
  using assms by (subst (asm) parse_glob.simps) (auto split: sum.splits)

lemma parse_chunk_no_star: "parse_chunk c = Inr its \<Longrightarrow> GStar \<notin> set its"
  by (induction c arbitrary: its rule: parse_chunk.induct)
    (auto simp: Let_def split: if_splits sum.splits prod.splits list.splits)

lemma scanBody_rest: "scanBody p inrange = (chunk, rest) \<Longrightarrow> rest = [] \<or> hd rest = CHR ''*''"
  by (induction p inrange arbitrary: chunk rest rule: scanBody.induct)
    (auto split: if_splits list.splits prod.splits)

lemma scanChunk_rest:
  "scanChunk pattern = (star, chunk, rest) \<Longrightarrow> rest = [] \<or> hd rest = CHR ''*''"
  by (auto simp: scanChunk_def split: prod.splits dest: scanBody_rest)

lemma scanChunk_star: "hd p = CHR ''*'' \<Longrightarrow> p \<noteq> [] \<Longrightarrow> fst (scanChunk p) = True"
  by (cases p) (auto simp: scanChunk_def split: prod.splits dest!: skipStars_suffix)

lemma parse_glob_star:
  assumes "parse_glob p = Inr gs" "p \<noteq> []" "hd p = CHR ''*''"
  shows "\<exists>gs'. gs = GStar # gs'"
proof -
  obtain star chunk rest where sc: "scanChunk p = (star, chunk, rest)"
    by (cases "scanChunk p") auto
  with assms have "star"
    using scanChunk_star by fastforce
  with parse_glob_chunk [OF assms(1,2) sc] show ?thesis
    by auto
qed

lemma checkRest_parse: "parse_glob p = Inr gs \<Longrightarrow> checkRest p = Inr False"
proof (induction "length p" arbitrary: p gs rule: less_induct)
  case less
  show ?case
  proof (cases "p = []")
    case False
    obtain star chunk rest where sc: "scanChunk p = (star, chunk, rest)"
      by (cases "scanChunk p") auto
    from parse_glob_chunk [OF less.prems False sc] obtain its gs' where
      "parse_chunk chunk = Inr its" "parse_glob rest = Inr gs'"
      by blast
    moreover have "length rest < length p"
      using scanChunk_shorter [OF sc False] .
    ultimately show ?thesis
      using less.hyps sc False by (subst checkRest.simps) (simp add: matchChunk_parse)
  qed simp
qed

section \<open>Properties of the declarative matcher\<close>

lemma gmatch_star:
  "gmatch (GStar # ps) n \<longleftrightarrow> (\<exists>k \<le> length (takeWhile (\<lambda>c. c \<noteq> Separator) n). gmatch ps (drop k n))"
proof (induction n)
  case (Cons c cs)
  show ?case
  proof
    assume "gmatch (GStar # ps) (c # cs)"
    with Cons show "\<exists>k \<le> length (takeWhile (\<lambda>c. c \<noteq> Separator) (c # cs)). gmatch ps (drop k (c # cs))"
      by (auto intro: exI [of _ 0] exI [of _ "Suc k" for k])
  next
    assume "\<exists>k \<le> length (takeWhile (\<lambda>c. c \<noteq> Separator) (c # cs)). gmatch ps (drop k (c # cs))"
    then obtain k where "k \<le> length (takeWhile (\<lambda>c. c \<noteq> Separator) (c # cs))" "gmatch ps (drop k (c # cs))"
      by blast
    with Cons show "gmatch (GStar # ps) (c # cs)"
      by (cases k) (auto split: if_splits)
  qed
qed simp

lemma gmatch_star_mono:
  "Separator \<notin> set u \<Longrightarrow> gmatch (GStar # ps) v \<Longrightarrow> gmatch (GStar # ps) (u @ v)"
  by (induction u) auto

lemma pmatch_append: "pmatch (a @ b) s \<longleftrightarrow> pmatch a s \<and> pmatch b (drop (length a) s)"
  by (induction a arbitrary: s) (auto elim: pmatch.elims)

lemma gmatch_fixed:
  "GStar \<notin> set its \<Longrightarrow> gmatch (its @ ps) n \<longleftrightarrow> pmatch its n \<and> gmatch ps (drop (length its) n)"
proof (induction its arbitrary: n)
  case (Cons i its)
  then show ?case
    by (cases n; cases i) auto
qed simp

lemma pmatch_length: "pmatch its s \<Longrightarrow> length its \<le> length s"
  by (induction its s rule: pmatch.induct) auto

lemma pmatch_no_sep:
  "list_all sep_free its \<Longrightarrow> GLit Separator \<notin> set its \<Longrightarrow> pmatch its s \<Longrightarrow>
   Separator \<notin> set (take (length its) s)"
proof (induction its s rule: pmatch.induct)
  case (3 i js c cs)
  then have "c \<noteq> Separator"
    by (cases i) auto
  with 3 show ?case
    by simp
qed auto

lemma takeWhile_sep_at:
  "Separator \<notin> set (take m s) \<Longrightarrow> m < length s \<Longrightarrow> s ! m = Separator \<Longrightarrow>
   length (takeWhile (\<lambda>c. c \<noteq> Separator) s) = m"
proof (induction s arbitrary: m)
  case (Cons c cs)
  then show ?case
    by (cases m) auto
qed simp

lemma takeWhile_prefix:
  "k \<le> length (takeWhile P s) \<Longrightarrow>
   (\<forall>x \<in> set (take k s). P x) \<and> length (takeWhile P s) = k + length (takeWhile P (drop k s))"
proof (induction s arbitrary: k)
  case (Cons c cs)
  then show ?case
    by (cases k) (auto split: if_splits)
qed simp

lemma drop_take_split: "m \<le> j \<Longrightarrow> drop m (take j xs) @ drop j xs = drop m xs"
proof (induction j arbitrary: m xs)
  case (Suc j)
  then show ?case
    by (cases xs; cases m) auto
qed simp

text \<open>
  After a star, Go's \<open>Match\<close> commits to the first position at which the next chunk
  matches. For a chunk whose items cannot match a \<open>/\<close> except as a literal, that is
  no loss: a later position that leads to a match can be replaced by the first one.
\<close>

lemma star_greedy:
  assumes sf: "list_all sep_free its" and ns: "GStar \<notin> set its" and p0: "pmatch its n"
    and gm: "gmatch (GStar # its @ GStar # ps) n"
  shows "gmatch (GStar # ps) (drop (length its) n)"
proof -
  let ?tw = "\<lambda>s. length (takeWhile (\<lambda>c. c \<noteq> Separator) s)"
  obtain k where k: "k \<le> ?tw n" and gk: "gmatch (its @ GStar # ps) (drop k n)"
    using gm gmatch_star by blast
  then have pk: "pmatch its (drop k n)" and rest: "gmatch (GStar # ps) (drop (k + length its) n)"
    using gmatch_fixed [OF ns] by (auto simp: add.commute)
  have tw: "\<forall>x \<in> set (take k n). x \<noteq> Separator" "?tw n = k + ?tw (drop k n)"
    using takeWhile_prefix [OF k] by auto
  show ?thesis
  proof (cases "GLit Separator \<in> set its")
    case True
    then obtain a b where its: "its = a @ GLit Separator # b" and a: "GLit Separator \<notin> set a"
      by (meson split_list_first)
    have sfa: "list_all sep_free a"
      using sf its by simp
    have at: "?tw s = length a" if "pmatch its s" for s
    proof -
      have "pmatch a s" "pmatch (GLit Separator # b) (drop (length a) s)"
        using that its pmatch_append by auto
      then obtain s' where d: "drop (length a) s = Separator # s'"
        by (cases "drop (length a) s") auto
      then have "length a < length s" "s ! length a = Separator"
        using nth_via_drop [OF d] by (auto dest: arg_cong [where f = length])
      moreover have "Separator \<notin> set (take (length a) s)"
        using pmatch_no_sep [OF sfa a \<open>pmatch a s\<close>] .
      ultimately show ?thesis
        using takeWhile_sep_at by blast
    qed
    have "k = 0"
      using at [OF p0] at [OF pk] tw(2) by linarith
    with rest show ?thesis
      by simp
  next
    case False
    have "Separator \<notin> set (take (length its) (drop k n))"
      using pmatch_no_sep [OF sf False pk] .
    with tw(1) have "Separator \<notin> set (take (k + length its) n)"
      by (auto simp: take_add)
    then have u: "Separator \<notin> set (drop (length its) (take (k + length its) n))"
      by (meson in_set_dropD)
    have "drop (length its) (take (k + length its) n) @ drop (k + length its) n = drop (length its) n"
      by (rule drop_take_split) simp
    with gmatch_star_mono [OF u rest] show ?thesis
      by metis
  qed
qed

lemma gmatch_star_Cons:
  "gmatch (GStar # ps) n \<longleftrightarrow>
   gmatch ps n \<or> (case n of [] \<Rightarrow> False | c # cs \<Rightarrow> c \<noteq> Separator \<and> gmatch (GStar # ps) cs)"
  by (cases n) auto

lemma gmatch_star_only: "gmatch [GStar] n \<longleftrightarrow> Separator \<notin> set n"
  by (induction n) auto

text \<open>
  The tail of a parsed pattern after a chunk: nothing, or a star that starts the
  next chunk.
\<close>

lemma parse_glob_tail:
  assumes "parse_glob rest = Inr gs" "scanChunk pattern = (star, chunk, rest)"
  shows "(rest = [] \<and> gs = []) \<or> (rest \<noteq> [] \<and> (\<exists>gs'. gs = GStar # gs'))"
  using assms scanChunk_rest [OF assms(2)] parse_glob_star by (cases "rest = []") auto

text \<open>The chunk matched at the current position: the greedy choice is right.\<close>

lemma greedy_step:
  assumes sf: "list_all sep_free its" and ns: "GStar \<notin> set its" and p: "pmatch its n"
    and tl: "(rest = [] \<and> gs = []) \<or> (rest \<noteq> [] \<and> (\<exists>gs'. gs = GStar # gs'))"
    and t: "drop (length its) n = [] \<or> rest \<noteq> []"
  shows "gmatch gs (drop (length its) n) \<longleftrightarrow> gmatch (GStar # its @ gs) n"
proof
  assume "gmatch gs (drop (length its) n)"
  with p ns have "gmatch (its @ gs) n"
    by (simp add: gmatch_fixed)
  then show "gmatch (GStar # its @ gs) n"
    by (simp add: gmatch_star_Cons)
next
  assume g: "gmatch (GStar # its @ gs) n"
  from tl show "gmatch gs (drop (length its) n)"
  proof
    assume "rest = [] \<and> gs = []"
    with t show ?thesis
      by simp
  next
    assume "rest \<noteq> [] \<and> (\<exists>gs'. gs = GStar # gs')"
    then obtain gs' where "gs = GStar # gs'"
      by blast
    with star_greedy [OF sf ns p] g show ?thesis
      by simp
  qed
qed

lemma starScan_gmatch:
  assumes pc: "parse_chunk chunk = Inr its" and sf: "list_all sep_free its"
    and tl: "(rest = [] \<and> gs = []) \<or> (rest \<noteq> [] \<and> (\<exists>gs'. gs = GStar # gs'))"
    and ih: "\<And>t. Match rest t = Inr (gmatch gs t)" and cr: "checkRest rest = Inr False"
  shows "(case starScan chunk rest name of
            Inl e \<Rightarrow> Inl e | Inr (Some t) \<Rightarrow> Match rest t | Inr None \<Rightarrow> checkRest rest) =
         Inr (case name of [] \<Rightarrow> False | c # cs \<Rightarrow> c \<noteq> Separator \<and> gmatch (GStar # its @ gs) cs)"
proof (induction name)
  case Nil
  with cr show ?case
    by simp
next
  case (Cons c cs)
  have ns: "GStar \<notin> set its"
    using parse_chunk_no_star [OF pc] .
  have mc: "matchChunk chunk cs = Inr (if pmatch its cs then Some (drop (length its) cs) else None)"
    using matchChunk_parse [OF pc] .
  show ?case
  proof (cases "c = Separator")
    case False
    show ?thesis
    proof (cases "pmatch its cs \<and> (drop (length its) cs = [] \<or> rest \<noteq> [])")
      case True
      with False mc ih greedy_step [OF sf ns _ tl] show ?thesis
        by auto
    next
      case nm: False
      have "\<not> gmatch (its @ gs) cs"
        using nm tl by (auto simp: gmatch_fixed [OF ns])
      with False mc Cons.IH nm show ?thesis
        by (auto simp: gmatch_star_Cons [of "its @ gs" cs] split: if_splits)
    qed
  qed (simp add: cr)
qed

lemma chunkStep_gmatch:
  assumes pc: "parse_chunk chunk = Inr its" and sf: "list_all sep_free its"
    and tl: "(rest = [] \<and> gs = []) \<or> (rest \<noteq> [] \<and> (\<exists>gs'. gs = GStar # gs'))"
    and ih: "\<And>t. Match rest t = Inr (gmatch gs t)" and cr: "checkRest rest = Inr False"
  shows "(case chunkStep star chunk rest name of
            Inl e \<Rightarrow> Inl e | Inr (Some t) \<Rightarrow> Match rest t | Inr None \<Rightarrow> checkRest rest) =
         Inr (gmatch ((if star then [GStar] else []) @ its @ gs) name)"
proof -
  have ns: "GStar \<notin> set its"
    using parse_chunk_no_star [OF pc] .
  have mc: "matchChunk chunk name = Inr (if pmatch its name then Some (drop (length its) name) else None)"
    using matchChunk_parse [OF pc] .
  have ss: "(case starScan chunk rest name of
               Inl e \<Rightarrow> Inl e | Inr (Some t) \<Rightarrow> Match rest t | Inr None \<Rightarrow> checkRest rest) =
            Inr (case name of [] \<Rightarrow> False | c # cs \<Rightarrow> c \<noteq> Separator \<and> gmatch (GStar # its @ gs) cs)"
    using starScan_gmatch [OF pc sf tl ih cr] .
  show ?thesis
  proof (cases "pmatch its name \<and> (drop (length its) name = [] \<or> rest \<noteq> [])")
    case True
    then have "gmatch gs (drop (length its) name) = gmatch (its @ gs) name"
      using ns by (simp add: gmatch_fixed)
    with True mc ih greedy_step [OF sf ns _ tl] show ?thesis
      by (auto simp: chunkStep_def)
  next
    case False
    then have "\<not> gmatch (its @ gs) name"
      using tl by (auto simp: gmatch_fixed [OF ns])
    with False mc ss cr show ?thesis
      by (cases star) (auto simp: chunkStep_def gmatch_star_Cons [of "its @ gs" name])
  qed
qed

text \<open>
  On a well-formed pattern none of whose classes matches \<open>/\<close>, Go's \<open>Match\<close>
  computes the backtracking matcher of the parsed pattern.
\<close>

lemma Match_gmatch:
  assumes "parse_glob pattern = Inr items" "list_all sep_free items"
  shows "Match pattern name = Inr (gmatch items name)"
  using assms
proof (induction "length pattern" arbitrary: pattern name items rule: less_induct)
  case less
  show ?case
  proof (cases "pattern = []")
    case True
    with less.prems show ?thesis
      by simp
  next
    case False
    obtain star chunk rest where sc: "scanChunk pattern = (star, chunk, rest)"
      by (cases "scanChunk pattern") auto
    from parse_glob_chunk [OF less.prems(1) False sc] obtain its gs where
      pc: "parse_chunk chunk = Inr its" and pg: "parse_glob rest = Inr gs"
      and items: "items = (if star then [GStar] else []) @ its @ gs"
      by blast
    have sf: "list_all sep_free its" "list_all sep_free gs"
      using less.prems(2) items by auto
    have ih: "Match rest t = Inr (gmatch gs t)" for t
      using less.hyps [OF scanChunk_shorter [OF sc False] pg sf(2)] .
    have tl: "(rest = [] \<and> gs = []) \<or> (rest \<noteq> [] \<and> (\<exists>gs'. gs = GStar # gs'))"
      using parse_glob_tail [OF pg sc] .
    have m: "Match pattern name =
        (if star \<and> chunk = [] then Inr (Separator \<notin> set name)
         else (case chunkStep star chunk rest name of
                 Inl e \<Rightarrow> Inl e | Inr (Some t) \<Rightarrow> Match rest t | Inr None \<Rightarrow> checkRest rest))"
      using False sc by (subst Match.simps) simp
    show ?thesis
    proof (cases "star \<and> chunk = []")
      case True
      then have "rest = []"
        using scanChunk_append(3) [OF sc] by blast
      with True pc tl items m show ?thesis
        by (simp add: gmatch_star_only)
    next
      case False
      with m chunkStep_gmatch [OF pc sf(1) tl ih checkRest_parse [OF pg]] items show ?thesis
        by simp
    qed
  qed
qed

lemmas glob_spec_eval = parse_glob.simps parse_ranges.simps scanChunk_def getEsc_def

text \<open>
  Refinement of the glob semantics: on a well-formed pattern whose classes do not
  contain the separator, Go's \<open>Match\<close> never fails and returns true exactly when the
  name is in the language of the parsed pattern (a star spans any run of non-separator
  characters, \<open>?\<close> one non-separator character, a class one character of its ranges).
\<close>

theorem Match_glob_lang:
  assumes "parse_glob pattern = Inr items" and "list_all sep_free items"
  shows "Match pattern name = Inr (name \<in> glob_lang items)"
  using Match_gmatch [OF assms] by (simp add: gmatch_lang)

theorem Match_glob_lang_witness:
  "parse_glob ''/a/*'' = Inr [GLit CHR ''/'', GLit CHR ''a'', GLit CHR ''/'', GStar] \<and>
   list_all sep_free [GLit CHR ''/'', GLit CHR ''a'', GLit CHR ''/'', GStar] \<and>
   Match ''/a/*'' ''/a/x'' = Inr (''/a/x'' \<in> glob_lang [GLit CHR ''/'', GLit CHR ''a'', GLit CHR ''/'', GStar])"
proof -
  have p: "parse_glob ''/a/*'' = Inr [GLit CHR ''/'', GLit CHR ''a'', GLit CHR ''/'', GStar]"
    by (simp add: glob_spec_eval)
  have "list_all sep_free [GLit CHR ''/'', GLit CHR ''a'', GLit CHR ''/'', GStar]"
    by simp
  with p Match_glob_lang [OF p] show ?thesis
    by simp
qed

end
