(* ===== verification/Store.thy ===== *)
theory Store
  imports GlobSpec
begin

text \<open>
  The key/value store of src/store.go, sequentially: every operation runs alone on the
  state it is given. Whether the reader/writer lock makes this so under concurrency is
  the subject of \<open>Concurrency\<close>.
  \<^item> \<open>kvpair\<close> is Go's \<open>KVPair{Key, Value}\<close>; \<open>store\<close> is \<open>Store\<close> without its
    embedded \<open>sync.RWMutex\<close>.
  \<^item> The Go map \<open>m\<close> is an association list without duplicate keys; its order is the
    order in which \<open>for ... range s.m\<close> visits the entries. Go leaves that order
    unspecified (and randomises it), so every query is also defined for an arbitrary
    enumeration of the entries (\<open>getAll_with\<close>, \<open>List_with\<close>, \<open>ListDir_with\<close>).
    The lemmas show that \<open>GetAll\<close>'s result does not depend on it; the listings
    collect a set.
  \<^item> Errors and panics are the \<open>Inl\<close> values of \<open>error + 'a\<close>; Go returns a zero value
    beside the error (\<open>KVPair{}\<close>, \<open>""\<close>, \<open>nil\<close>, an empty slice), which this
    theory leaves out and \<open>GoApi\<close> adds.
\<close>

section \<open>Data\<close>

record kvpair =
  Key :: string
  Value :: string

record store =
  m :: "(string \<times> kvpair) list"

text \<open>The entries in the order in which \<open>range s.m\<close> visits them.\<close>

definition entries :: "store \<Rightarrow> kvpair list" where
  "entries s = map snd (m s)"

text \<open>
  The invariant of the spec (section 3): the map has each key once, and the record stored
  under a key carries that key.
\<close>

definition store_inv :: "store \<Rightarrow> bool" where
  "store_inv s \<longleftrightarrow> distinct (map fst (m s)) \<and> list_all (\<lambda>(k, kv). Key kv = k) (m s)"

section \<open>Point operations\<close>

definition New :: store where
  "New = \<lparr>m = []\<rparr>"

definition Del :: "string \<Rightarrow> store \<Rightarrow> store" where
  "Del key s = s\<lparr>m := AList.delete key (m s)\<rparr>"

definition Get :: "string \<Rightarrow> store \<Rightarrow> error + kvpair" where
  "Get key s = (case map_of (m s) key of None \<Rightarrow> Inl ErrNotExist | Some kv \<Rightarrow> Inr kv)"

definition GetValue :: "string \<Rightarrow> store \<Rightarrow> error + string" where
  "GetValue key s = (case Get key s of Inl err \<Rightarrow> Inl err | Inr kv \<Rightarrow> Inr (Value kv))"

definition Set :: "string \<Rightarrow> string \<Rightarrow> store \<Rightarrow> store" where
  "Set key value s = s\<lparr>m := AList.update key \<lparr>Key = key, Value = value\<rparr> (m s)\<rparr>"

section \<open>Glob queries\<close>

text \<open>
  The matcher is the interface between the store and \<open>Glob\<close>: \<open>GetAll\<close> calls
  \<open>filepath.Match(pattern, kv.Key)\<close>. The loop of \<open>GetAll\<close> is stated for any
  matcher; its lemmas assume only that whether the matcher fails does not depend on the
  name (\<open>errors_name_independent\<close>), which \<open>Glob.Match_errors\<close> discharges for
  \<open>Match\<close>.
\<close>

type_synonym matcher = "string \<Rightarrow> string \<Rightarrow> error + bool"

text \<open>The \<open>for _, kv := range s.m\<close> loop of \<open>GetAll\<close>: it stops at the first error.\<close>

fun getAll_scan :: "matcher \<Rightarrow> string \<Rightarrow> kvpair list \<Rightarrow> kvpair list \<Rightarrow> error + kvpair list" where
  "getAll_scan match pattern [] ks = Inr ks"
| "getAll_scan match pattern (kv # kvs) ks =
     (case match pattern (Key kv) of
        Inl err \<Rightarrow> Inl err
      | Inr b \<Rightarrow> getAll_scan match pattern kvs (if b then ks @ [kv] else ks))"

text \<open>\<open>GetAll\<close> over an enumeration \<open>es\<close> of the entries.\<close>

definition getAll_with :: "matcher \<Rightarrow> kvpair list \<Rightarrow> string \<Rightarrow> error + kvpair list" where
  "getAll_with match es pattern =
     (case getAll_scan match pattern es [] of
        Inl err \<Rightarrow> Inl err
      | Inr ks \<Rightarrow> if ks = [] then Inl ErrNoMatch else Inr (sort_key Key ks))"

definition GetAll :: "string \<Rightarrow> store \<Rightarrow> error + kvpair list" where
  "GetAll pattern s = getAll_with Match (entries s) pattern"

definition GetAllValues :: "string \<Rightarrow> store \<Rightarrow> error + string list" where
  "GetAllValues pattern s =
     (case GetAll pattern s of Inl err \<Rightarrow> Inl err | Inr ks \<Rightarrow> Inr (map Value ks))"

section \<open>Hierarchical listings\<close>

text \<open>
  The loops of \<open>List\<close> and \<open>ListDir\<close>: for a key with the literal prefix
  \<open>path\<close>, \<open>strippedKey[1:]\<close> drops one more byte, and panics when nothing follows
  the prefix (the key equals \<open>path\<close>). The Go set \<open>map[string]bool\<close> is a HOL set.
  \<open>SplitN\<close> with limit 2 never returns an empty slice, so \<open>[0]\<close> is in range
  (\<open>splitN2_first\<close>).
\<close>

fun list_scan :: "string \<Rightarrow> kvpair list \<Rightarrow> string set \<Rightarrow> error + string set" where
  "list_scan path [] acc = Inr acc"
| "list_scan path (kv # kvs) acc =
     (if prefix path (Key kv) then
        (let strippedKey = drop (length path) (Key kv) in
         if strippedKey = [] then Inl ErrSliceBounds
         else list_scan path kvs (insert (splitN2 (tl strippedKey) ! 0) acc))
      else list_scan path kvs acc)"

definition List_with :: "kvpair list \<Rightarrow> string \<Rightarrow> error + string list" where
  "List_with es path =
     (case list_scan path es {} of
        Inl err \<Rightarrow> Inl err
      | Inr acc \<Rightarrow> Inr (sorted_list_of_set acc))"

definition List :: "string \<Rightarrow> store \<Rightarrow> error + string list" where
  "List path s = List_with (entries s) path"

fun listDir_scan :: "string \<Rightarrow> kvpair list \<Rightarrow> string set \<Rightarrow> error + string set" where
  "listDir_scan path [] acc = Inr acc"
| "listDir_scan path (kv # kvs) acc =
     (if prefix path (Key kv) then
        (let strippedKey = drop (length path) (Key kv) in
         if strippedKey = [] then Inl ErrSliceBounds
         else (let items = splitN2 (tl strippedKey) in
               if length items < 2 then listDir_scan path kvs acc
               else listDir_scan path kvs (insert (items ! 0) acc)))
      else listDir_scan path kvs acc)"

definition ListDir_with :: "kvpair list \<Rightarrow> string \<Rightarrow> error + string list" where
  "ListDir_with es path =
     (case listDir_scan path es {} of
        Inl err \<Rightarrow> Inl err
      | Inr acc \<Rightarrow> Inr (sorted_list_of_set acc))"

definition ListDir :: "string \<Rightarrow> store \<Rightarrow> error + string list" where
  "ListDir path s = ListDir_with (entries s) path"

section \<open>The invariant and the point operations\<close>

named_theorems store_simps "the effect of the store's writes on its entries"

lemma map_of_Set [store_simps]:
  "map_of (m (Set key value s)) = (map_of (m s))(key \<mapsto> \<lparr>Key = key, Value = value\<rparr>)"
  by (simp add: Set_def update_conv')

lemma map_of_Del [store_simps]:
  "map_of (m (Del key s)) = (map_of (m s))(key := None)"
  by (simp add: Del_def delete_conv')

lemma store_inv_map_of:
  "store_inv s \<Longrightarrow> map_of (m s) k = Some kv \<Longrightarrow> Key kv = k"
  by (auto simp: store_inv_def list_all_iff dest: map_of_SomeD)

lemma store_inv_New [intro]: "store_inv New"
  by (simp add: store_inv_def New_def)

lemma store_inv_Set [intro]: "store_inv s \<Longrightarrow> store_inv (Set key value s)"
proof -
  assume inv: "store_inv s"
  have "\<forall>(k, kv) \<in> set (AList.update key \<lparr>Key = key, Value = value\<rparr> (m s)). Key kv = k"
  proof
    fix p assume "p \<in> set (AList.update key \<lparr>Key = key, Value = value\<rparr> (m s))"
    then have "p \<in> set (m s) \<or> p = (key, \<lparr>Key = key, Value = value\<rparr>)"
      using set_AList_update_subset by fastforce
    with inv show "case p of (k, kv) \<Rightarrow> Key kv = k"
      by (auto simp: store_inv_def list_all_iff)
  qed
  with inv show ?thesis
    by (simp add: store_inv_def Set_def distinct_update list_all_iff)
qed

lemma store_inv_Del [intro]: "store_inv s \<Longrightarrow> store_inv (Del key s)"
  using set_AList_delete_subset [of key "m s"]
  by (auto simp: store_inv_def Del_def distinct_delete list_all_iff)

lemma store_inv_keys:
  "store_inv s \<Longrightarrow> map Key (entries s) = map fst (m s)"
  by (auto simp: store_inv_def entries_def list_all_iff)

lemma store_inv_distinct_keys:
  "store_inv s \<Longrightarrow> distinct (map Key (entries s))"
  using store_inv_keys by (simp add: store_inv_def)

section \<open>The glob queries over any matcher\<close>

definition errors_name_independent :: "matcher \<Rightarrow> bool" where
  "errors_name_independent match \<longleftrightarrow>
     (\<forall>pattern name. err_part (match pattern name) = err_part (match pattern []))"

lemma getAll_scan_error:
  assumes "errors_name_independent match" and "kvs \<noteq> []" and "match pattern [] = Inl e"
  shows "getAll_scan match pattern kvs ks = Inl e"
proof -
  obtain kv kvs' where kvs: "kvs = kv # kvs'"
    using assms(2) by (cases kvs) auto
  from assms(1) have "err_part (match pattern (Key kv)) = err_part (match pattern [])"
    unfolding errors_name_independent_def by blast
  with assms(3) have "match pattern (Key kv) = Inl e"
    by simp
  with kvs show ?thesis by simp
qed

lemma getAll_scan_ok:
  "\<forall>kv\<in>set kvs. \<not> isl (match pattern (Key kv)) \<Longrightarrow>
     getAll_scan match pattern kvs ks =
       Inr (ks @ filter (\<lambda>kv. match pattern (Key kv) = Inr True) kvs)"
proof (induction kvs arbitrary: ks)
  case Nil
  then show ?case by simp
next
  case (Cons kv kvs)
  then obtain b where "match pattern (Key kv) = Inr b"
    by (cases "match pattern (Key kv)") auto
  with Cons show ?case by simp
qed

lemma getAll_with_eq:
  assumes "errors_name_independent match"
  shows "getAll_with match es pattern =
    (if isl (match pattern []) \<and> es \<noteq> [] then Inl (projl (match pattern []))
     else if filter (\<lambda>kv. match pattern (Key kv) = Inr True) es = [] then Inl ErrNoMatch
     else Inr (sort_key Key (filter (\<lambda>kv. match pattern (Key kv) = Inr True) es)))"
proof (cases "isl (match pattern [])")
  case True
  then obtain e where e: "match pattern [] = Inl e"
    by (cases "match pattern []") auto
  show ?thesis
  proof (cases "es = []")
    case True
    then show ?thesis by (simp add: getAll_with_def)
  next
    case False
    with e assms show ?thesis
      by (simp add: getAll_with_def getAll_scan_error)
  qed
next
  case False
  then obtain y where y: "match pattern [] = Inr y"
    by (cases "match pattern []") auto
  have "\<not> isl (match pattern name)" for name
  proof -
    have "err_part (match pattern name) = err_part (match pattern [])"
      using assms unfolding errors_name_independent_def by blast
    with y show ?thesis
      by (cases "match pattern name") auto
  qed
  with False show ?thesis
    by (simp add: getAll_with_def getAll_scan_ok)
qed

section \<open>The glob queries with filepath.Match\<close>

lemma errors_name_independent_Match: "errors_name_independent Match"
  unfolding errors_name_independent_def using Match_errors_name_independent by blast

lemma Match_bad_pattern: "isl (Match pattern []) \<Longrightarrow> projl (Match pattern []) = ErrBadPattern"
  using Match_error by (cases "Match pattern []") auto

lemma GetAll_eq:
  "GetAll pattern s =
    (if isl (Match pattern []) \<and> entries s \<noteq> [] then Inl ErrBadPattern
     else if filter (\<lambda>kv. Match pattern (Key kv) = Inr True) (entries s) = [] then Inl ErrNoMatch
     else Inr (sort_key Key (filter (\<lambda>kv. Match pattern (Key kv) = Inr True) (entries s))))"
  unfolding GetAll_def getAll_with_eq [OF errors_name_independent_Match]
  by (simp add: Match_bad_pattern)

section \<open>The listings\<close>

text \<open>
  The first path segment after \<open>path\<close> and the byte that follows it, as
  \<open>strings.SplitN(strippedKey[1:], "/", 2)[0]\<close> computes it, and whether a second
  segment follows.
\<close>

definition first_segment :: "string \<Rightarrow> string \<Rightarrow> string" where
  "first_segment path key = takeWhile (\<lambda>c. c \<noteq> Separator) (drop (Suc (length path)) key)"

definition has_child :: "string \<Rightarrow> string \<Rightarrow> bool" where
  "has_child path key \<longleftrightarrow> Separator \<in> set (drop (Suc (length path)) key)"

lemma prefix_stripped_Nil:
  "prefix path key \<Longrightarrow> drop (length path) key = [] \<longleftrightarrow> key = path"
  by (auto simp: prefix_def)

lemma tl_drop_Suc: "tl (drop n xs) = drop (Suc n) xs"
  by (simp add: drop_Suc tl_drop)

lemma list_scan_eq:
  "list_scan path kvs acc =
     (if \<exists>kv\<in>set kvs. Key kv = path then Inl ErrSliceBounds
      else Inr (acc \<union> (\<lambda>kv. first_segment path (Key kv)) ` {kv \<in> set kvs. prefix path (Key kv)}))"
proof (induction kvs arbitrary: acc)
  case Nil
  then show ?case by simp
next
  case (Cons kv kvs)
  show ?case
  proof (cases "prefix path (Key kv)")
    case True
    then show ?thesis
      using Cons.IH prefix_stripped_Nil [OF True]
      by (auto simp: Let_def splitN2_nth0 tl_drop_Suc first_segment_def)
  next
    case False
    then have "Key kv \<noteq> path" by auto
    with False Cons.IH show ?thesis by auto
  qed
qed

lemma listDir_scan_eq:
  "listDir_scan path kvs acc =
     (if \<exists>kv\<in>set kvs. Key kv = path then Inl ErrSliceBounds
      else Inr (acc \<union> (\<lambda>kv. first_segment path (Key kv)) `
                         {kv \<in> set kvs. prefix path (Key kv) \<and> has_child path (Key kv)}))"
proof (induction kvs arbitrary: acc)
  case Nil
  then show ?case by simp
next
  case (Cons kv kvs)
  show ?case
  proof (cases "prefix path (Key kv)")
    case True
    have "length (splitN2 (drop (Suc (length path)) (Key kv))) < 2 \<longleftrightarrow> \<not> has_child path (Key kv)"
      by (simp add: splitN2_length has_child_def)
    with True show ?thesis
      using Cons.IH prefix_stripped_Nil [OF True]
      by (auto simp: Let_def splitN2_nth0 tl_drop_Suc first_segment_def)
  next
    case False
    then have "Key kv \<noteq> path" by auto
    with False Cons.IH show ?thesis by auto
  qed
qed

section \<open>Sequences of writes and the abstract store\<close>

text \<open>
  The writers' calls as a datatype of operations with a step function, and the abstract
  specification the store promises: a finite map from keys to values (the spec's
  section 4.1), where \<open>Set\<close> updates, \<open>Del\<close> removes and \<open>GetValue\<close> looks up.
\<close>

datatype op = OpSet string string | OpDel string

fun apply_op :: "op \<Rightarrow> store \<Rightarrow> store" where
  "apply_op (OpSet key value) s = Set key value s"
| "apply_op (OpDel key) s = Del key s"

definition run :: "op list \<Rightarrow> store \<Rightarrow> store" where
  "run ops s = fold apply_op ops s"

type_synonym abs_store = "string \<rightharpoonup> string"

fun abs_apply :: "op \<Rightarrow> abs_store \<Rightarrow> abs_store" where
  "abs_apply (OpSet key value) M = M(key \<mapsto> value)"
| "abs_apply (OpDel key) M = M(key := None)"

definition abs_run :: "op list \<Rightarrow> abs_store \<Rightarrow> abs_store" where
  "abs_run ops M = fold abs_apply ops M"

definition abs_GetValue :: "string \<Rightarrow> abs_store \<Rightarrow> error + string" where
  "abs_GetValue key M = (case M key of None \<Rightarrow> Inl ErrNotExist | Some v \<Rightarrow> Inr v)"

definition abs_of :: "store \<Rightarrow> abs_store" where
  "abs_of s = (\<lambda>key. map_option Value (map_of (m s) key))"

lemma abs_of_apply_op: "abs_of (apply_op op s) = abs_apply op (abs_of s)"
  by (cases op) (auto simp: abs_of_def store_simps)

lemma store_inv_apply_op: "store_inv s \<Longrightarrow> store_inv (apply_op op s)"
  by (cases op) auto

lemma store_inv_run_from: "store_inv s \<Longrightarrow> store_inv (run ops s)"
  by (induction ops arbitrary: s) (simp_all add: run_def store_inv_apply_op)

lemma filter_Key_alist:
  "distinct (map fst al) \<Longrightarrow> list_all (\<lambda>(k, kv). Key kv = k) al \<Longrightarrow>
   filter (\<lambda>kv. Key kv = key) (map snd al) =
     (case map_of al key of None \<Rightarrow> [] | Some kv \<Rightarrow> [kv])"
proof (induction al)
  case Nil
  then show ?case by simp
next
  case (Cons p al)
  obtain k kv where p: "p = (k, kv)" by (cases p)
  with Cons.prems have kv: "Key kv = k" and notin: "k \<notin> fst ` set al" by auto
  show ?case
  proof (cases "k = key")
    case True
    from Cons.prems notin have "\<forall>(k', kv') \<in> set al. Key kv' \<noteq> key"
      using True by (auto simp: list_all_iff rev_image_eqI)
    then have "filter (\<lambda>kv. Key kv = key) (map snd al) = []"
      by (auto simp: filter_empty_conv)
    with p kv True show ?thesis by simp
  next
    case False
    with p kv Cons show ?thesis by simp
  qed
qed

lemma store_inv_filter_Key:
  "store_inv s \<Longrightarrow>
   filter (\<lambda>kv. Key kv = key) (entries s) = (case Get key s of Inl _ \<Rightarrow> [] | Inr kv \<Rightarrow> [kv])"
  unfolding store_inv_def entries_def Get_def
  by (auto simp: filter_Key_alist split: option.split)

lemma Get_run_unset:
  "Get key s = Inl ErrNotExist \<Longrightarrow> (\<forall>v. OpSet key v \<notin> set ops) \<Longrightarrow>
   Get key (run ops s) = Inl ErrNotExist"
proof (induction ops arbitrary: s)
  case Nil
  then show ?case
    by (simp add: run_def)
next
  case (Cons op ops)
  have "Get key (apply_op op s) = Inl ErrNotExist"
    using Cons.prems by (cases op) (auto simp: Get_def store_simps)
  with Cons show ?case
    by (simp add: run_def)
qed

section \<open>Example stores\<close>

text \<open>The stores of the spec's examples (section 8), built by the writers' calls.\<close>

abbreviation a_store :: store where
  "a_store \<equiv> run [OpSet ''/a/2'' ''two'', OpSet ''/a/1'' ''one''] New"

abbreviation app_store :: store where
  "app_store \<equiv> run [OpSet ''/app/db/host'' ''h'', OpSet ''/app/db/port'' ''5432'',
                    OpSet ''/app/cache/ttl'' ''60''] New"

section \<open>Properties of the point operations\<close>

text \<open>
  C1. After \<open>Set(key, value)\<close>, \<open>Get(key)\<close> returns the record
  \<open>{key, value}\<close> and no error, whatever the store held before.
\<close>

theorem Get_Set: "Get key (Set key value s) = Inr \<lparr>Key = key, Value = value\<rparr>"
  by (simp add: Get_def store_simps)

text \<open>
  C2. After \<open>Del(key)\<close>, \<open>Get(key)\<close> fails with \<open>ErrNotExist\<close>.
\<close>

theorem Get_Del: "Get key (Del key s) = Inl ErrNotExist"
  by (simp add: Get_def store_simps)

text \<open>
  C3. Every store built by \<open>New\<close> and any sequence of \<open>Set\<close> and \<open>Del\<close> calls keeps
  the spec's invariant: each key at most once, and \<open>m[k].Key = k\<close>.
\<close>

theorem store_inv_run: "store_inv (run ops New)"
  by (rule store_inv_run_from) blast

text \<open>
  C4. Refinement: the store implements a finite map from keys to values; running any
  sequence of writes and then abstracting gives the abstract map after the same writes.
\<close>

theorem run_refines: "abs_of (run ops s) = abs_run ops (abs_of s)"
  by (induction ops arbitrary: s) (simp_all add: run_def abs_run_def abs_of_apply_op)

section \<open>Properties of the glob queries\<close>

text \<open>
  C5. A successful \<open>GetAll\<close> returns exactly the stored records whose key the pattern
  matches, sorted by key in ascending byte order, each key once.
\<close>

theorem GetAll_result:
  assumes "store_inv s" and "GetAll pattern s = Inr ks"
  shows "sorted (map Key ks) \<and> distinct (map Key ks) \<and>
         set ks = {kv \<in> set (entries s). Match pattern (Key kv) = Inr True}"
proof -
  let ?hits = "filter (\<lambda>kv. Match pattern (Key kv) = Inr True) (entries s)"
  from assms(2) have ks: "ks = sort_key Key ?hits"
    by (simp add: GetAll_eq split: if_splits)
  have "distinct (map Key ?hits)"
    using store_inv_distinct_keys [OF assms(1)] by (simp add: distinct_map_filter)
  moreover have "mset (map Key ks) = mset (map Key ?hits)"
    using ks by simp
  ultimately have "distinct (map Key ks)"
    using mset_eq_imp_distinct_iff by blast
  with ks show ?thesis by simp
qed

theorem GetAll_result_witness:
  "store_inv a_store \<and>
   GetAll ''/a/*'' a_store =
     Inr [\<lparr>Key = ''/a/1'', Value = ''one''\<rparr>, \<lparr>Key = ''/a/2'', Value = ''two''\<rparr>] \<and>
   sorted (map Key [\<lparr>Key = ''/a/1'', Value = ''one''\<rparr>, \<lparr>Key = ''/a/2'', Value = ''two''\<rparr>])"
proof -
  let ?s = a_store
  let ?ks = "[\<lparr>Key = ''/a/1'', Value = ''one''\<rparr>, \<lparr>Key = ''/a/2'', Value = ''two''\<rparr>]"
  have inv: "store_inv ?s"
    by (simp add: run_def Set_def New_def store_inv_def)
  have get: "GetAll ''/a/*'' ?s = Inr ?ks"
    by (simp add: run_def Set_def New_def GetAll_def getAll_with_def entries_def glob_eval)
  show ?thesis
    using GetAll_result [OF inv get] inv get by simp
qed

text \<open>
  C6. \<open>GetAll\<close> is deterministic although Go visits the map in an unspecified
  order: over any enumeration of the entries (any permutation of them) the loop gives
  the same result, error or records, as over the store's own order.
\<close>

theorem GetAll_iteration_order:
  assumes "store_inv s" and "mset es = mset (entries s)"
  shows "getAll_with Match es pattern = GetAll pattern s"
proof -
  let ?P = "\<lambda>kv. Match pattern (Key kv) = Inr True"
  have empty: "es = [] \<longleftrightarrow> entries s = []"
    using assms(2) by (metis mset_zero_iff)
  have hits: "mset (filter ?P es) = mset (filter ?P (entries s))"
    using assms(2) by simp
  then have hits_empty: "filter ?P es = [] \<longleftrightarrow> filter ?P (entries s) = []"
    by (metis mset_zero_iff)
  have "distinct (map Key (filter ?P (entries s)))"
    using store_inv_distinct_keys [OF assms(1)] by (simp add: distinct_map_filter)
  then have "sort_key Key (filter ?P (entries s)) = sort_key Key (filter ?P es)"
    using hits by (intro sort_key_mset_eq) simp_all
  with empty hits_empty show ?thesis
    unfolding GetAll_def getAll_with_eq [OF errors_name_independent_Match]
    by simp
qed

theorem GetAll_iteration_order_witness:
  "store_inv a_store \<and>
   mset [\<lparr>Key = ''/a/1'', Value = ''one''\<rparr>, \<lparr>Key = ''/a/2'', Value = ''two''\<rparr>] =
     mset (entries a_store) \<and>
   getAll_with Match [\<lparr>Key = ''/a/1'', Value = ''one''\<rparr>, \<lparr>Key = ''/a/2'', Value = ''two''\<rparr>] ''/a/*'' =
     GetAll ''/a/*'' a_store"
proof -
  let ?s = a_store
  let ?es = "[\<lparr>Key = ''/a/1'', Value = ''one''\<rparr>, \<lparr>Key = ''/a/2'', Value = ''two''\<rparr>]"
  have inv: "store_inv ?s"
    by (simp add: run_def Set_def New_def store_inv_def)
  have perm: "mset ?es = mset (entries ?s)"
    by (simp add: run_def Set_def New_def entries_def)
  show ?thesis
    using GetAll_iteration_order [OF inv perm] inv perm by simp
qed

text \<open>
  C7. On a non-empty store, a malformed pattern makes \<open>GetAll\<close> fail with
  \<open>ErrBadPattern\<close> (the spec's \<open>InvalidPattern\<close>). A pattern is malformed when
  matching it against the empty name fails, which by \<open>Glob.Match_errors\<close> is when
  matching it against any name fails; the spec's example \<open>GetAll("[")\<close> is one.
\<close>

theorem GetAll_bad_pattern:
  "entries s \<noteq> [] \<Longrightarrow> isl (Match pattern []) \<Longrightarrow> GetAll pattern s = Inl ErrBadPattern"
  by (simp add: GetAll_eq)

theorem GetAll_bad_pattern_witness:
  "entries (Set ''/a'' ''1'' New) \<noteq> [] \<and> isl (Match ''['' []) \<and>
   GetAll ''['' (Set ''/a'' ''1'' New) = Inl ErrBadPattern"
proof -
  have ne: "entries (Set ''/a'' ''1'' New) \<noteq> []"
    by (simp add: Set_def New_def entries_def)
  have bad: "isl (Match ''['' [])"
    by (simp add: glob_eval)
  show ?thesis
    using GetAll_bad_pattern [OF ne bad] ne bad by simp
qed

text \<open>
  C8. When the pattern matches no key (matching returns false for every stored key),
  \<open>GetAll\<close> fails with \<open>ErrNoMatch\<close>, even on a non-empty store.
\<close>

theorem GetAll_no_match:
  assumes "\<forall>kv\<in>set (entries s). Match pattern (Key kv) = Inr False"
  shows "GetAll pattern s = Inl ErrNoMatch"
proof (cases "entries s")
  case Nil
  then show ?thesis by (simp add: GetAll_eq)
next
  case (Cons kv kvs)
  with assms have "Match pattern (Key kv) = Inr False" by simp
  then have "\<not> isl (Match pattern [])"
    using Match_errors_name_independent [of pattern "Key kv" "[]"]
    by (cases "Match pattern []") auto
  moreover have "filter (\<lambda>kv. Match pattern (Key kv) = Inr True) (entries s) = []"
    using assms by (simp add: filter_empty_conv)
  ultimately show ?thesis by (simp add: GetAll_eq)
qed

theorem GetAll_no_match_witness:
  "GetAll ''/b/*'' (Set ''/a/1'' ''1'' New) = Inl ErrNoMatch"
proof -
  have h: "\<forall>kv\<in>set (entries (Set ''/a/1'' ''1'' New)). Match ''/b/*'' (Key kv) = Inr False"
    by (simp add: Set_def New_def entries_def glob_eval)
  show ?thesis
    using GetAll_no_match [OF h] .
qed

section \<open>Properties of the listings\<close>

text \<open>
  C9. When no key equals \<open>path\<close>, \<open>List(path)\<close> returns, sorted and without
  duplicates, the first segment after \<open>path\<close> and one more byte of every key that has
  \<open>path\<close> as a literal prefix.
\<close>

theorem List_spec:
  "\<forall>kv\<in>set (entries s). Key kv \<noteq> path \<Longrightarrow>
   List path s = Inr (sorted_list_of_set
     ((\<lambda>kv. first_segment path (Key kv)) ` {kv \<in> set (entries s). prefix path (Key kv)}))"
  by (auto simp: List_def List_with_def list_scan_eq)

theorem List_spec_witness:
  "List ''/app'' app_store = Inr (sorted_list_of_set
     ((\<lambda>kv. first_segment ''/app'' (Key kv)) `
        {kv \<in> set (entries app_store). prefix ''/app'' (Key kv)}))"
proof -
  have h: "\<forall>kv\<in>set (entries app_store). Key kv \<noteq> ''/app''"
    by (simp add: run_def Set_def New_def entries_def)
  show ?thesis
    using List_spec [OF h] .
qed

text \<open>
  C10. When no key equals \<open>path\<close>, \<open>ListDir(path)\<close> returns the same segments as
  \<open>List\<close>, but only of keys in which a further separator follows the first segment.
\<close>

theorem ListDir_spec:
  "\<forall>kv\<in>set (entries s). Key kv \<noteq> path \<Longrightarrow>
   ListDir path s = Inr (sorted_list_of_set
     ((\<lambda>kv. first_segment path (Key kv)) `
        {kv \<in> set (entries s). prefix path (Key kv) \<and> has_child path (Key kv)}))"
  by (auto simp: ListDir_def ListDir_with_def listDir_scan_eq)

theorem ListDir_spec_witness:
  "ListDir ''/app'' app_store = Inr (sorted_list_of_set
     ((\<lambda>kv. first_segment ''/app'' (Key kv)) `
        {kv \<in> set (entries app_store). prefix ''/app'' (Key kv) \<and> has_child ''/app'' (Key kv)}))"
proof -
  have h: "\<forall>kv\<in>set (entries app_store). Key kv \<noteq> ''/app''"
    by (simp add: run_def Set_def New_def entries_def)
  show ?thesis
    using ListDir_spec [OF h] .
qed

text \<open>
  C11. A key equal to \<open>path\<close> makes \<open>List(path)\<close> and \<open>ListDir(path)\<close> panic:
  \<open>strippedKey\<close> is empty and \<open>strippedKey[1:]\<close> is out of range. The spec says the
  listings never fail.
\<close>

theorem List_panic:
  "\<exists>kv\<in>set (entries s). Key kv = path \<Longrightarrow>
   List path s = Inl ErrSliceBounds \<and> ListDir path s = Inl ErrSliceBounds"
  by (simp add: List_def List_with_def ListDir_def ListDir_with_def list_scan_eq listDir_scan_eq)

theorem List_panic_witness:
  "List ''/app'' (Set ''/app'' ''x'' New) = Inl ErrSliceBounds \<and>
   ListDir ''/app'' (Set ''/app'' ''x'' New) = Inl ErrSliceBounds"
proof -
  have h: "\<exists>kv\<in>set (entries (Set ''/app'' ''x'' New)). Key kv = ''/app''"
    by (simp add: Set_def New_def entries_def)
  show ?thesis
    using List_panic [OF h] .
qed

section \<open>Further properties\<close>

text \<open>
  C12. On an empty store \<open>GetAll\<close> fails with \<open>ErrNoMatch\<close> for every pattern,
  a malformed one included: the matcher is never called, so \<open>GetAll("[")\<close> does not
  report \<open>InvalidPattern\<close> as the spec's section 8 says it does.
\<close>

theorem GetAll_empty_store: "GetAll pattern New = Inl ErrNoMatch"
  by (simp add: GetAll_def getAll_with_def entries_def New_def)

text \<open>
  C15. Every name \<open>ListDir(path)\<close> returns is also returned by \<open>List(path)\<close>.
\<close>

theorem ListDir_subset_List:
  assumes "List path s = Inr xs" and "ListDir path s = Inr ys"
  shows "set ys \<subseteq> set xs"
proof -
  from assms(1) have nokey: "\<forall>kv\<in>set (entries s). Key kv \<noteq> path"
    by (auto simp: List_def List_with_def list_scan_eq split: if_splits)
  let ?L = "(\<lambda>kv. first_segment path (Key kv)) ` {kv \<in> set (entries s). prefix path (Key kv)}"
  let ?D = "(\<lambda>kv. first_segment path (Key kv)) `
              {kv \<in> set (entries s). prefix path (Key kv) \<and> has_child path (Key kv)}"
  from assms nokey have "xs = sorted_list_of_set ?L" and "ys = sorted_list_of_set ?D"
    by (simp_all add: List_def List_with_def ListDir_def ListDir_with_def list_scan_eq
        listDir_scan_eq)
  moreover have "finite ?L" and "finite ?D" by simp_all
  moreover have "?D \<subseteq> ?L" by blast
  ultimately show ?thesis by simp
qed

theorem ListDir_subset_List_witness:
  "List ''/app'' app_store = Inr [''cache'', ''db''] \<and>
   ListDir ''/app'' app_store = Inr [''cache'', ''db''] \<and>
   set [''cache'', ''db''] \<subseteq> set [''cache'', ''db'']"
proof -
  have l: "List ''/app'' app_store = Inr [''cache'', ''db'']"
    by (simp add: run_def Set_def New_def List_def List_with_def entries_def splitN2_def)
  have d: "ListDir ''/app'' app_store = Inr [''cache'', ''db'']"
    by (simp add: run_def Set_def New_def ListDir_def ListDir_with_def entries_def splitN2_def)
  show ?thesis
    using ListDir_subset_List [OF l d] l d by simp
qed

text \<open>
  C16. When no key has \<open>path\<close> as a prefix, \<open>List\<close> and \<open>ListDir\<close> return the
  empty list, not an error.
\<close>

theorem List_no_prefix:
  "\<forall>kv\<in>set (entries s). \<not> prefix path (Key kv) \<Longrightarrow>
   List path s = Inr [] \<and> ListDir path s = Inr []"
  by (auto simp: List_def List_with_def ListDir_def ListDir_with_def list_scan_eq listDir_scan_eq)

theorem List_no_prefix_witness:
  "List ''/etc'' app_store = Inr [] \<and> ListDir ''/etc'' app_store = Inr []"
proof -
  have h: "\<forall>kv\<in>set (entries app_store). \<not> prefix ''/etc'' (Key kv)"
    by (simp add: run_def Set_def New_def entries_def)
  show ?thesis
    using List_no_prefix [OF h] .
qed

text \<open>
  C17. Deleting an absent key is a no-op: the store is unchanged.
\<close>

theorem Del_absent: "Get key s = Inl ErrNotExist \<Longrightarrow> Del key s = s"
proof -
  assume "Get key s = Inl ErrNotExist"
  then have "map_of (m s) key = None"
    by (auto simp: Get_def split: option.splits)
  then have "key \<notin> fst ` set (m s)"
    by (simp add: map_of_eq_None_iff)
  then show "Del key s = s"
    by (simp add: Del_def)
qed

theorem Del_absent_witness: "Del ''/b'' (Set ''/a'' ''1'' New) = Set ''/a'' ''1'' New"
proof -
  have h: "Get ''/b'' (Set ''/a'' ''1'' New) = Inl ErrNotExist"
    by (simp add: Get_def Set_def New_def)
  show ?thesis
    using Del_absent [OF h] .
qed

text \<open>
  C18. \<open>Get\<close> of a key that no \<open>Set\<close> call has written fails with \<open>ErrNotExist\<close>,
  whatever other keys were set and deleted since \<open>New()\<close>.
\<close>

theorem Get_never_set:
  "(\<forall>v. OpSet key v \<notin> set ops) \<Longrightarrow> Get key (run ops New) = Inl ErrNotExist"
  by (rule Get_run_unset) (simp_all add: Get_def New_def)

theorem Get_never_set_witness:
  "Get ''/b'' (run [OpSet ''/a'' ''1'', OpDel ''/b'', OpDel ''/a''] New) = Inl ErrNotExist"
  using Get_never_set [of "''/b''" "[OpSet ''/a'' ''1'', OpDel ''/b'', OpDel ''/a'']"] by simp

text \<open>
  C19. \<open>Set\<close> and \<open>Del\<close> of one key leave every other key's record unchanged.
\<close>

theorem Get_other_key:
  "key' \<noteq> key \<Longrightarrow>
   Get key' (Set key value s) = Get key' s \<and> Get key' (Del key s) = Get key' s"
  by (simp add: Get_def store_simps)

theorem Get_other_key_witness:
  "Get ''/b'' (Set ''/a'' ''2'' (Set ''/b'' ''1'' New)) = Get ''/b'' (Set ''/b'' ''1'' New) \<and>
   Get ''/b'' (Del ''/a'' (Set ''/b'' ''1'' New)) = Get ''/b'' (Set ''/b'' ''1'' New)"
  using Get_other_key [of "''/b''" "''/a''" "''2''" "Set ''/b'' ''1'' New"] by simp

text \<open>
  \<open>GetValue\<close> is the abstract lookup: it returns the value stored under the key,
  or \<open>ErrNotExist\<close>.
\<close>

theorem GetValue_refines: "GetValue key s = abs_GetValue key (abs_of s)"
  by (simp add: GetValue_def Get_def abs_GetValue_def abs_of_def split: option.split)

text \<open>
  On every store built by the writers, a record returned by \<open>Get(key)\<close> has the
  key it was looked up by.
\<close>

theorem Get_key_run: "Get key (run ops New) = Inr kv \<Longrightarrow> Key kv = key"
proof -
  assume "Get key (run ops New) = Inr kv"
  then have "map_of (m (run ops New)) key = Some kv"
    by (auto simp: Get_def split: option.splits)
  with store_inv_run_from [OF store_inv_New] show "Key kv = key"
    by (rule store_inv_map_of)
qed

theorem Get_key_run_witness:
  "Get ''/a/1'' a_store = Inr \<lparr>Key = ''/a/1'', Value = ''one''\<rparr> \<and>
   Key \<lparr>Key = ''/a/1'', Value = ''one''\<rparr> = ''/a/1''"
proof -
  have h: "Get ''/a/1'' a_store = Inr \<lparr>Key = ''/a/1'', Value = ''one''\<rparr>"
    by (simp add: run_def Set_def New_def Get_def)
  show ?thesis
    using Get_key_run [OF h] h by simp
qed

text \<open>
  C22. On a plain key (a pattern without \<open>*\<close>, \<open>?\<close>, \<open>[\<close> or backslash)
  \<open>GetAll\<close> behaves as \<open>Get\<close>: the one record stored under that key, or
  \<open>ErrNoMatch\<close> where \<open>Get\<close> reports \<open>ErrNotExist\<close>.
\<close>

theorem GetAll_literal:
  assumes "store_inv s" and "literal pattern"
  shows "GetAll pattern s = (case Get pattern s of Inl _ \<Rightarrow> Inl ErrNoMatch | Inr kv \<Rightarrow> Inr [kv])"
proof -
  have match: "Match pattern name = Inr (name = pattern)" for name
    using assms(2) by (rule Match_literal)
  have "filter (\<lambda>kv. Match pattern (Key kv) = Inr True) (entries s) =
        filter (\<lambda>kv. Key kv = pattern) (entries s)"
    by (simp add: match)
  also have "\<dots> = (case Get pattern s of Inl _ \<Rightarrow> [] | Inr kv \<Rightarrow> [kv])"
    using assms(1) by (rule store_inv_filter_Key)
  finally show ?thesis
    by (simp add: GetAll_eq match split: sum.split)
qed

theorem GetAll_literal_witness:
  "GetAll ''/a/1'' a_store = Inr [\<lparr>Key = ''/a/1'', Value = ''one''\<rparr>]"
proof -
  have inv: "store_inv a_store"
    by (simp add: run_def Set_def New_def store_inv_def)
  have lit: "literal ''/a/1''"
    by (simp add: literal_def)
  have get: "Get ''/a/1'' a_store = Inr \<lparr>Key = ''/a/1'', Value = ''one''\<rparr>"
    by (simp add: run_def Set_def New_def Get_def)
  show ?thesis
    using GetAll_literal [OF inv lit] get by simp
qed

text \<open>
  C23. On a well-formed pattern whose classes do not contain the separator,
  \<open>GetAll\<close> returns, sorted by key, exactly the records whose key is matched by the
  parsed pattern in the declarative glob semantics, and \<open>ErrNoMatch\<close> when there is
  none: the spec's fnmatch-style semantics, a star never crossing a \<open>/\<close>.
\<close>

theorem GetAll_glob:
  assumes "parse_glob pattern = Inr items" and "list_all sep_free items"
  shows "GetAll pattern s =
    (if filter (\<lambda>kv. gmatch items (Key kv)) (entries s) = [] then Inl ErrNoMatch
     else Inr (sort_key Key (filter (\<lambda>kv. gmatch items (Key kv)) (entries s))))"
  by (simp add: GetAll_eq Match_gmatch [OF assms])

theorem GetAll_glob_witness:
  "parse_glob ''/a/*'' = Inr [GLit CHR ''/'', GLit CHR ''a'', GLit CHR ''/'', GStar] \<and>
   list_all sep_free [GLit CHR ''/'', GLit CHR ''a'', GLit CHR ''/'', GStar] \<and>
   GetAll ''/a/*'' (Set ''/b'' ''2'' (Set ''/a/1'' ''1'' New)) = Inr [\<lparr>Key = ''/a/1'', Value = ''1''\<rparr>]"
proof -
  have p: "parse_glob ''/a/*'' = Inr [GLit CHR ''/'', GLit CHR ''a'', GLit CHR ''/'', GStar]"
    by (simp add: glob_spec_eval)
  have sf: "list_all sep_free [GLit CHR ''/'', GLit CHR ''a'', GLit CHR ''/'', GStar]"
    by simp
  show ?thesis
    using GetAll_glob [OF p sf, of "Set ''/b'' ''2'' (Set ''/a/1'' ''1'' New)"] p sf
    by (simp add: Set_def New_def entries_def)
qed

text \<open>
  Where a class contains the separator, \<open>GetAll\<close> departs from the spec's
  fnmatch-style semantics, in which no wildcard matches a \<open>/\<close>: \<open>GetAll("a[/]b")\<close>
  returns the key \<open>a/b\<close>, and \<open>GetAll("*[/a]*")\<close> on the key \<open>a/\<close> fails with
  \<open>ErrNoMatch\<close> although the key is in the language of the pattern, because
  \<open>filepath.Match\<close> commits the first star to the shortest prefix after which
  \<open>[/a]\<close> matches (the \<open>a\<close>), and the second star cannot then cross the \<open>/\<close>.
\<close>

theorem GetAll_class_separator:
  "GetAll ''a[/]b'' (Set ''a/b'' ''1'' New) = Inr [\<lparr>Key = ''a/b'', Value = ''1''\<rparr>] \<and>
   GetAll ''*[/a]*'' (Set ''a/'' ''1'' New) = Inl ErrNoMatch \<and>
   (\<exists>items. parse_glob ''*[/a]*'' = Inr items \<and> ''a/'' \<in> glob_lang items)"
proof -
  have "GetAll ''a[/]b'' (Set ''a/b'' ''1'' New) = Inr [\<lparr>Key = ''a/b'', Value = ''1''\<rparr>]"
    by (simp add: GetAll_eq Set_def New_def entries_def glob_eval)
  moreover have "GetAll ''*[/a]*'' (Set ''a/'' ''1'' New) = Inl ErrNoMatch"
    by (simp add: GetAll_eq Set_def New_def entries_def glob_eval)
  moreover have "parse_glob ''*[/a]*'' =
      Inr [GStar, GClass False [(CHR ''/'', CHR ''/''), (CHR ''a'', CHR ''a'')], GStar]"
    by (simp add: glob_spec_eval)
  moreover have "''a/'' \<in> glob_lang [GStar, GClass False [(CHR ''/'', CHR ''/''), (CHR ''a'', CHR ''a'')], GStar]"
    unfolding gmatch_lang [symmetric] by simp
  ultimately show ?thesis
    by blast
qed

section \<open>The examples of the spec (section 8)\<close>

text \<open>
  With the keys \<open>/a/2\<close>, \<open>/a/1\<close>, \<open>/a/3\<close> set in that order,
  \<open>GetAllValues("/a/*")\<close> returns the values in the order of the keys
  \<open>/a/1\<close>, \<open>/a/2\<close>, \<open>/a/3\<close>.
\<close>

theorem GetAllValues_example:
  "GetAllValues ''/a/*''
     (run [OpSet ''/a/2'' ''two'', OpSet ''/a/1'' ''one'', OpSet ''/a/3'' ''three''] New) =
   Inr [''one'', ''two'', ''three'']"
  by (simp add: GetAllValues_def GetAll_def getAll_with_def entries_def run_def Set_def New_def
      glob_eval)

text \<open>
  The prefix test is literal and the byte after the prefix is always dropped: with
  \<open>path = "/a"\<close>, the key \<open>/ab/c\<close> lists as the empty name and \<open>/abc/d\<close> as
  \<open>c\<close>.
\<close>

lemma List_non_boundary_example:
  "List ''/a'' (run [OpSet ''/ab/c'' ''1'', OpSet ''/abc/d'' ''2''] New) = Inr [[], ''c'']"
  by (simp add: List_def List_with_def entries_def run_def Set_def New_def splitN2_def)

section \<open>Shape and size of the query results\<close>

text \<open>
  C30. A successful \<open>GetAll\<close> returns at least one record and at most one per entry
  of the store.
\<close>

theorem GetAll_bounds:
  assumes "GetAll pattern s = Inr ks"
  shows "0 < length ks \<and> length ks \<le> length (entries s)"
proof -
  let ?hits = "filter (\<lambda>kv. Match pattern (Key kv) = Inr True) (entries s)"
  from assms have "ks = sort_key Key ?hits" and "?hits \<noteq> []"
    by (simp_all add: GetAll_eq split: if_splits)
  then show ?thesis
    by simp
qed

theorem GetAll_bounds_witness:
  "0 < length [\<lparr>Key = ''/a/1'', Value = ''one''\<rparr>, \<lparr>Key = ''/a/2'', Value = ''two''\<rparr>] \<and>
   length [\<lparr>Key = ''/a/1'', Value = ''one''\<rparr>, \<lparr>Key = ''/a/2'', Value = ''two''\<rparr>] \<le>
     length (entries a_store)"
  using GetAll_bounds [of "''/a/*''" a_store
      "[\<lparr>Key = ''/a/1'', Value = ''one''\<rparr>, \<lparr>Key = ''/a/2'', Value = ''two''\<rparr>]"]
  by (simp add: run_def Set_def New_def GetAll_def getAll_with_def entries_def glob_eval)

end
