(* ===== verification/GoApi.thy ===== *)
theory GoApi
  imports Store
begin

text \<open>
  The methods of src/store.go as Go returns them. \<open>Store\<close> models an error as the
  \<open>Inl\<close> of \<open>error + 'a\<close> and drops what Go returns beside it; here every method
  returns Go's pair of a value and an error, with the value the code puts there: the zero
  \<open>KVPair{}\<close> that the comma-ok read \<open>kv, ok := s.m[key]\<close> yields for a missing key,
  \<open>""\<close>, a \<open>nil\<close> slice, or the empty slice \<open>make([]string, 0)\<close>. Go tells a
  \<open>nil\<close> slice from an empty one (\<open>vs == nil\<close>, and encoders write \<open>null\<close>
  against \<open>[]\<close>), so a slice is \<open>NilSlice\<close> or \<open>Slice xs\<close>. The lemmas show that
  dropping the value gives back the \<open>Store\<close> model (\<open>go_sum\<close>), and what the value
  is on every path.
\<close>

section \<open>Go values\<close>

datatype 'a slice = NilSlice | Slice "'a list"

text \<open>The elements of a slice: \<open>range\<close> and \<open>len\<close> see none in a \<open>nil\<close> slice.\<close>

primrec elems :: "'a slice \<Rightarrow> 'a list" where
  "elems NilSlice = []"
| "elems (Slice xs) = xs"

text \<open>\<open>append(vs, x)\<close>: on a \<open>nil\<close> slice it allocates, so the result is never \<open>nil\<close>.\<close>

definition append_slice :: "'a slice \<Rightarrow> 'a \<Rightarrow> 'a slice" where
  "append_slice vs x = Slice (elems vs @ [x])"

definition zero_kvpair :: kvpair where
  "zero_kvpair = \<lparr>Key = [], Value = []\<rparr>"

text \<open>The comma-ok read \<open>kv, ok := s.m[key]\<close>.\<close>

definition map_index :: "store \<Rightarrow> string \<Rightarrow> kvpair \<times> bool" where
  "map_index s key = (case map_of (m s) key of None \<Rightarrow> (zero_kvpair, False) | Some kv \<Rightarrow> (kv, True))"

text \<open>A Go result \<open>(v, err)\<close> read as the model's result: \<open>err != nil\<close> is the error.\<close>

definition go_sum :: "'a \<times> error option \<Rightarrow> error + 'a" where
  "go_sum r = (case snd r of None \<Rightarrow> Inr (fst r) | Some e \<Rightarrow> Inl e)"

section \<open>The methods\<close>

definition Get_go :: "string \<Rightarrow> store \<Rightarrow> kvpair \<times> error option" where
  "Get_go key s =
     (let (kv, ok) = map_index s key
      in if \<not> ok then (kv, Some ErrNotExist) else (kv, None))"

definition GetValue_go :: "string \<Rightarrow> store \<Rightarrow> string \<times> error option" where
  "GetValue_go key s =
     (let (kv, err) = Get_go key s
      in if err \<noteq> None then ('''', err) else (Value kv, None))"

definition GetAll_go :: "string \<Rightarrow> store \<Rightarrow> kvpair slice \<times> error option" where
  "GetAll_go pattern s =
     (case getAll_scan Match pattern (entries s) [] of
        Inl err \<Rightarrow> (NilSlice, Some err)
      | Inr ks \<Rightarrow>
          if length ks = 0 then (NilSlice, Some ErrNoMatch)
          else (Slice (sort_key Key ks), None))"

definition GetAllValues_go :: "string \<Rightarrow> store \<Rightarrow> string slice \<times> error option" where
  "GetAllValues_go pattern s =
     (let vs = Slice [];
          (ks, err) = GetAll_go pattern s
      in if err \<noteq> None then (vs, err)
         else (fold (\<lambda>kv vs. append_slice vs (Value kv)) (elems ks) vs, None))"

text \<open>
  \<open>sort.Strings(vs)\<close> sorts the slice in place: a \<open>nil\<close> slice stays \<open>nil\<close>.
\<close>

primrec sort_slice :: "'a::linorder slice \<Rightarrow> 'a slice" where
  "sort_slice NilSlice = NilSlice"
| "sort_slice (Slice xs) = Slice (sort xs)"

text \<open>
  \<open>List\<close> and \<open>ListDir\<close> return no error; a panic (\<open>Inl ErrSliceBounds\<close>) is the
  only other outcome. Their result starts as \<open>vs := make([]string, 0)\<close>; the loop
  \<open>for k := range m\<close> appends the names of the set \<open>m\<close> in Go's map order, which is
  unspecified: \<open>enum\<close> is that order, any list of the set's elements, each once. Then
  \<open>sort.Strings(vs)\<close>.
\<close>

definition List_go :: "(string set \<Rightarrow> string list) \<Rightarrow> string \<Rightarrow> store \<Rightarrow> error + string slice" where
  "List_go enum path s =
     (let vs = Slice [] in
      case list_scan path (entries s) {} of
        Inl err \<Rightarrow> Inl err
      | Inr names \<Rightarrow> Inr (sort_slice (fold (\<lambda>k vs. append_slice vs k) (enum names) vs)))"

definition ListDir_go :: "(string set \<Rightarrow> string list) \<Rightarrow> string \<Rightarrow> store \<Rightarrow> error + string slice" where
  "ListDir_go enum path s =
     (let vs = Slice [] in
      case listDir_scan path (entries s) {} of
        Inl err \<Rightarrow> Inl err
      | Inr names \<Rightarrow> Inr (sort_slice (fold (\<lambda>k vs. append_slice vs k) (enum names) vs)))"

section \<open>The Go results and the model\<close>

lemma fold_append_slice: "fold (\<lambda>x vs. append_slice vs (f x)) xs (Slice ys) = Slice (ys @ map f xs)"
  by (induction xs arbitrary: ys) (simp_all add: append_slice_def)

lemma fold_append_slice_id: "fold (\<lambda>x vs. append_slice vs x) xs (Slice ys) = Slice (ys @ xs)"
  using fold_append_slice [of id xs ys] by simp

lemma go_sum_simps [simp]:
  "go_sum (v, None) = Inr v"
  "go_sum (v, Some e) = Inl e"
  by (simp_all add: go_sum_def)

lemma Get_go_eq:
  "Get_go key s = (case map_of (m s) key of None \<Rightarrow> (zero_kvpair, Some ErrNotExist) | Some kv \<Rightarrow> (kv, None))"
  by (simp add: Get_go_def map_index_def split: option.split)

lemma GetValue_go_eq:
  "GetValue_go key s = (case map_of (m s) key of None \<Rightarrow> ('''', Some ErrNotExist) | Some kv \<Rightarrow> (Value kv, None))"
  by (simp add: GetValue_go_def Get_go_eq split: option.split)

lemma GetAll_go_eq:
  "GetAll_go pattern s = (case GetAll pattern s of Inl e \<Rightarrow> (NilSlice, Some e) | Inr ks \<Rightarrow> (Slice ks, None))"
  by (simp add: GetAll_go_def GetAll_def getAll_with_def split: sum.split)

text \<open>Dropping the value Go returns beside an error gives back the \<open>Store\<close> model.\<close>

lemma go_sum_model:
  "go_sum (Get_go key s) = Get key s"
  "go_sum (GetValue_go key s) = GetValue key s"
  "go_sum (map_prod elems id (GetAll_go pattern s)) = GetAll pattern s"
  by (simp_all add: Get_go_eq GetValue_go_eq GetAll_go_eq GetValue_def Get_def
      split: option.split sum.split)

section \<open>Properties of the Go results\<close>

text \<open>
  C13. \<open>GetAllValues\<close> as Go returns it meets the spec (section 4.1): the values of
  \<open>GetAll\<close>'s records in the same key-sorted order, and on any failure \<open>GetAll\<close>'s
  error beside an empty slice that is not \<open>nil\<close> (the \<open>vs\<close> made before the call).
\<close>

theorem GetAllValues_go_spec:
  "GetAllValues_go pattern s =
     (case GetAll pattern s of
        Inl e \<Rightarrow> (Slice [], Some e)
      | Inr ks \<Rightarrow> (Slice (map Value ks), None))"
  by (simp add: GetAllValues_go_def GetAll_go_eq fold_append_slice split: sum.split)

text \<open>
  C20. On a well-formed store, Go's \<open>Get\<close> and \<open>GetValue\<close> implement the abstract
  map: a present key gives its record (whose key is the key looked up) and its value with
  a \<open>nil\<close> error; an absent key gives \<open>ErrNotExist\<close> beside the zero \<open>KVPair{}\<close>
  and beside \<open>""\<close>, as the comments of both methods say.
\<close>

theorem Get_go_refines:
  assumes "store_inv s"
  shows "Get_go key s =
           (case abs_of s key of
              None \<Rightarrow> (zero_kvpair, Some ErrNotExist)
            | Some v \<Rightarrow> (\<lparr>Key = key, Value = v\<rparr>, None)) \<and>
         GetValue_go key s =
           (case abs_of s key of None \<Rightarrow> ('''', Some ErrNotExist) | Some v \<Rightarrow> (v, None))"
proof (cases "map_of (m s) key")
  case None
  then show ?thesis
    by (simp add: Get_go_eq GetValue_go_eq abs_of_def)
next
  case (Some kv)
  with assms have "Key kv = key"
    by (rule store_inv_map_of)
  then have "kv = \<lparr>Key = key, Value = Value kv\<rparr>"
    by (cases kv) simp
  with Some show ?thesis
    by (simp add: Get_go_eq GetValue_go_eq abs_of_def)
qed

theorem Get_go_refines_witness:
  "store_inv (Set ''/a'' ''1'' New) \<and>
   Get_go ''/a'' (Set ''/a'' ''1'' New) = (\<lparr>Key = ''/a'', Value = ''1''\<rparr>, None) \<and>
   GetValue_go ''/a'' (Set ''/a'' ''1'' New) = (''1'', None)"
proof -
  have inv: "store_inv (Set ''/a'' ''1'' New)"
    by blast
  show ?thesis
    using Get_go_refines [OF inv, of "''/a''"] inv by (simp add: abs_of_def Set_def New_def)
qed

lemma list_scan_finite: "list_scan path es acc = Inr r \<Longrightarrow> finite acc \<Longrightarrow> finite r"
  by (induction path es acc rule: list_scan.induct) (auto simp: Let_def split: if_splits)

lemma listDir_scan_finite: "listDir_scan path es acc = Inr r \<Longrightarrow> finite acc \<Longrightarrow> finite r"
  by (induction path es acc rule: listDir_scan.induct) (auto simp: Let_def split: if_splits)

text \<open>Sorting any enumeration of a finite set, each element once, gives the sorted set.\<close>

lemma sort_enum: "set xs = A \<Longrightarrow> distinct xs \<Longrightarrow> sort xs = sorted_list_of_set A"
  by (metis distinct_remdups_id sorted_list_of_set_sort_remdups)

text \<open>
  C21. What \<open>List\<close> and \<open>ListDir\<close> return as Go values, whatever order Go's map
  ranges over the collected names in: unless they panic, the names sorted, in a slice that
  is never \<open>nil\<close> (the \<open>make([]string, 0)\<close> of lines 95 and 113), so an empty result is an
  empty slice as the spec asks (sections 4.1 and 8), and \<open>sort.Strings\<close> makes the result
  independent of the map order.
\<close>

theorem List_go_spec:
  assumes "\<forall>A. finite A \<longrightarrow> set (enum A) = A \<and> distinct (enum A)"
  shows "List_go enum path s = map_sum id Slice (List path s) \<and>
         ListDir_go enum path s = map_sum id Slice (ListDir path s)"
proof -
  have go: "sort_slice (fold (\<lambda>k vs. append_slice vs k) (enum A) (Slice [])) = Slice (sorted_list_of_set A)"
    if "finite A" for A
    using assms that by (simp add: fold_append_slice_id sort_enum)
  show ?thesis
    by (auto simp: List_go_def List_def List_with_def ListDir_go_def ListDir_def ListDir_with_def go
        dest: list_scan_finite listDir_scan_finite split: sum.split)
qed

theorem List_go_spec_witness:
  "List_go sorted_list_of_set ''/b'' New = Inr (Slice []) \<and>
   ListDir_go sorted_list_of_set ''/b'' New = Inr (Slice [])"
proof -
  have h: "\<forall>A. finite A \<longrightarrow> set (sorted_list_of_set A) = A \<and> distinct (sorted_list_of_set A)"
    by simp
  show ?thesis
    using List_go_spec [OF h, of "''/b''" New] h
    by (simp add: List_def List_with_def ListDir_def ListDir_with_def entries_def New_def)
qed

end
