(* ===== verification/Concurrency.thy ===== *)
theory Concurrency
  imports Store
begin

text \<open>
  The reader/writer lock of src/store.go (spec section 5). \<open>Store\<close> embeds a
  \<open>sync.RWMutex\<close>: \<open>Set\<close> and \<open>Del\<close> take the write lock around their one map
  assignment (\<open>Lock\<close>, write, \<open>Unlock\<close>); \<open>Get\<close>, \<open>GetAll\<close>, \<open>List\<close> and
  \<open>ListDir\<close> take the read lock around their reading of the map (\<open>RLock\<close>, then
  \<open>RUnlock\<close> directly or by \<open>defer\<close>).
  \<^item> Any number of goroutines, numbered by \<open>nat\<close>, run such calls; a step is one
    goroutine taking one lock action or one map access, in any interleaving
    (\<open>wstep\<close>, \<open>rstep\<close>, \<open>cstep\<close>, reachability \<open>creach\<close>).
  \<^item> A range loop (\<open>GetAll\<close>, \<open>List\<close>, \<open>ListDir\<close>, \<open>rstep\<close>) reads the
    entries of the shared map one at a time until none is left at its position, so a
    concurrent write between two reads is visible to it; \<open>Get\<close> (\<open>gstep\<close>) reads
    its one entry in one step. \<open>tstep\<close> is a step of one goroutine of any kind.
  \<^item> The methods have value receivers, so each call locks a copy of the store's mutex
    (\<open>ByValue\<close>); the same steps with one shared mutex (\<open>ByPointer\<close>) are the
    discipline of the spec, which pointer receivers would give. The theorems show that the
    discipline is race-free, reads consistent snapshots and cannot deadlock, and that the
    code as written races and returns torn reads.
  \<^item> The model lets a reader take the read lock whenever no writer holds it; Go's lock
    also makes new readers wait for a blocked writer. \<open>GoLock\<close> adds that order and
    proves that every interleaving Go allows is a run of the model, so the safety
    theorems hold for Go's schedules, and that Go's lock does not deadlock either.
  \<^item> \<open>log\<close> is a ghost variable, not in the code: the writes applied so far, in order.
  \<^item> \<open>step_fun\<close> and \<open>exec\<close> are an executable scheduler whose runs are runs of the
    step relation (\<open>exec_reach\<close>); the example states are evaluated with them.
\<close>

section \<open>State\<close>

text \<open>
  \<open>sync.RWMutex\<close> as its two observable parts: whether a writer holds it, and how many
  readers do. Its zero value, the one \<open>New\<close> leaves in the struct, is \<open>unlocked\<close>.
\<close>

record rwmutex =
  wlocked :: bool
  rcount :: nat

definition unlocked :: rwmutex where
  "unlocked = \<lparr>wlocked = False, rcount = 0\<rparr>"

text \<open>
  How a method reaches the store. The methods of src/store.go are declared with value
  receivers, \<open>func (s Store) ...\<close>: each call copies the \<open>Store\<close> struct, the embedded
  mutex with it, and locks that copy, while the map \<open>m\<close> (a reference) is shared
  (\<open>ByValue\<close>). With pointer receivers, \<open>func (s *Store)\<close>, as the locking discipline of
  the spec requires, every call locks the one mutex of the store (\<open>ByPointer\<close>).
\<close>

datatype receiver = ByValue | ByPointer

datatype tstate =
    Idle
  | WaitW op
  | InW op
  | DoneW
  | WaitR
  | InR nat "kvpair list"
  | DoneR nat "kvpair list"
  | WaitG string
  | InG nat string
  | HeldG nat string "kvpair option"
  | DoneG nat string "kvpair option"

text \<open>
  \<open>WaitW\<close>: \<open>Lock()\<close> called; \<open>InW\<close>: write lock held, map not yet written;
  \<open>DoneW\<close>: map written, \<open>Unlock()\<close> pending. \<open>WaitR\<close>: \<open>RLock()\<close> called;
  \<open>InR n got\<close>: read lock held, \<open>got\<close> the entries read so far, \<open>n\<close> the number
  of writes applied when the lock was taken; \<open>DoneR n got\<close>: read lock released.
  \<open>Get(key)\<close> reads one entry instead of ranging: \<open>WaitG key\<close>: \<open>RLock()\<close>
  called; \<open>InG n key\<close>: read lock held; \<open>HeldG n key r\<close>: \<open>s.m[key]\<close> read,
  \<open>RUnlock()\<close> pending; \<open>DoneG n key r\<close>: read lock released.
\<close>

record cstate =
  mem :: "(string \<times> kvpair) list"
  smu :: rwmutex
  recv :: "nat \<Rightarrow> rwmutex"
  pc :: "nat \<Rightarrow> tstate"
  log :: "op list"

text \<open>
  \<open>mem\<close> is the shared map \<open>s.m\<close>, \<open>smu\<close> the mutex embedded in the store, \<open>recv t\<close>
  the mutex in the receiver copy of goroutine \<open>t\<close>'s current call.
\<close>

definition cinit :: cstate where
  "cinit = \<lparr>mem = [], smu = unlocked, recv = (\<lambda>_. unlocked), pc = (\<lambda>_. Idle), log = []\<rparr>"

definition mutex_of :: "receiver \<Rightarrow> cstate \<Rightarrow> nat \<Rightarrow> rwmutex" where
  "mutex_of rk s t = (case rk of ByValue \<Rightarrow> recv s t | ByPointer \<Rightarrow> smu s)"

definition set_mutex :: "receiver \<Rightarrow> nat \<Rightarrow> rwmutex \<Rightarrow> cstate \<Rightarrow> cstate" where
  "set_mutex rk t mu s =
     (case rk of ByValue \<Rightarrow> s\<lparr>recv := (recv s)(t := mu)\<rparr> | ByPointer \<Rightarrow> s\<lparr>smu := mu\<rparr>)"

fun is_writer :: "tstate \<Rightarrow> bool" where
  "is_writer (InW _) = True"
| "is_writer DoneW = True"
| "is_writer _ = False"

fun is_reader :: "tstate \<Rightarrow> bool" where
  "is_reader (InR _ _) = True"
| "is_reader (InG _ _) = True"
| "is_reader (HeldG _ _ _) = True"
| "is_reader _ = False"

text \<open>
  What \<open>Get\<close> returns once it has released the lock (lines 44--47): the record
  looked up, or \<open>ErrNotExist\<close> when \<open>ok\<close> is false.
\<close>

definition get_result :: "kvpair option \<Rightarrow> error + kvpair" where
  "get_result r = (case r of None \<Rightarrow> Inl ErrNotExist | Some kv \<Rightarrow> Inr kv)"

section \<open>Steps\<close>

text \<open>
  The writers: \<open>Set\<close> (lines 135--139) and \<open>Del\<close> (lines 32--36): the call, which
  copies the receiver, \<open>s.Lock()\<close>, the one map write, \<open>s.Unlock()\<close>.
\<close>

inductive wstep :: "receiver \<Rightarrow> nat \<Rightarrow> cstate \<Rightarrow> cstate \<Rightarrow> bool" for rk where
  w_call: "pc s t = Idle \<Longrightarrow>
    wstep rk t s (s\<lparr>recv := (recv s)(t := smu s), pc := (pc s)(t := WaitW op)\<rparr>)"
| w_lock: "pc s t = WaitW op \<Longrightarrow> \<not> wlocked (mutex_of rk s t) \<Longrightarrow> rcount (mutex_of rk s t) = 0 \<Longrightarrow>
    wstep rk t s (set_mutex rk t ((mutex_of rk s t)\<lparr>wlocked := True\<rparr>) (s\<lparr>pc := (pc s)(t := InW op)\<rparr>))"
| w_write: "pc s t = InW op \<Longrightarrow>
    wstep rk t s (s\<lparr>mem := m (apply_op op \<lparr>m = mem s\<rparr>), log := log s @ [op], pc := (pc s)(t := DoneW)\<rparr>)"
| w_unlock: "pc s t = DoneW \<Longrightarrow>
    wstep rk t s (set_mutex rk t ((mutex_of rk s t)\<lparr>wlocked := False\<rparr>) (s\<lparr>pc := (pc s)(t := Idle)\<rparr>))"

text \<open>
  The readers: the call, \<open>s.RLock()\<close>, the range loop over \<open>s.m\<close> one entry at a
  time until no entry is left, \<open>s.RUnlock()\<close> (\<open>GetAll\<close>, lines 64--66, \<open>List\<close>,
  lines 97--99, \<open>ListDir\<close>, lines 115--117).
\<close>

inductive rstep :: "receiver \<Rightarrow> nat \<Rightarrow> cstate \<Rightarrow> cstate \<Rightarrow> bool" for rk where
  r_call: "pc s t = Idle \<Longrightarrow> rstep rk t s (s\<lparr>recv := (recv s)(t := smu s), pc := (pc s)(t := WaitR)\<rparr>)"
| r_lock: "pc s t = WaitR \<Longrightarrow> \<not> wlocked (mutex_of rk s t) \<Longrightarrow>
    rstep rk t s (set_mutex rk t ((mutex_of rk s t)\<lparr>rcount := Suc (rcount (mutex_of rk s t))\<rparr>)
      (s\<lparr>pc := (pc s)(t := InR (length (log s)) [])\<rparr>))"
| r_read: "pc s t = InR n got \<Longrightarrow> length got < length (mem s) \<Longrightarrow>
    rstep rk t s (s\<lparr>pc := (pc s)(t := InR n (got @ [snd (mem s ! length got)]))\<rparr>)"
| r_unlock: "pc s t = InR n got \<Longrightarrow> length (mem s) \<le> length got \<Longrightarrow>
    rstep rk t s (set_mutex rk t ((mutex_of rk s t)\<lparr>rcount := rcount (mutex_of rk s t) - 1\<rparr>)
      (s\<lparr>pc := (pc s)(t := DoneR n got)\<rparr>))"
| r_return: "pc s t = DoneR n got \<Longrightarrow> rstep rk t s (s\<lparr>pc := (pc s)(t := Idle)\<rparr>)"

text \<open>
  \<open>Get\<close> (lines 40--48): the call, \<open>s.RLock()\<close>, the one lookup
  \<open>kv, ok := s.m[key]\<close>, \<open>s.RUnlock()\<close>, the return.
\<close>

inductive gstep :: "receiver \<Rightarrow> nat \<Rightarrow> cstate \<Rightarrow> cstate \<Rightarrow> bool" for rk where
  g_call: "pc s t = Idle \<Longrightarrow>
    gstep rk t s (s\<lparr>recv := (recv s)(t := smu s), pc := (pc s)(t := WaitG key)\<rparr>)"
| g_lock: "pc s t = WaitG key \<Longrightarrow> \<not> wlocked (mutex_of rk s t) \<Longrightarrow>
    gstep rk t s (set_mutex rk t ((mutex_of rk s t)\<lparr>rcount := Suc (rcount (mutex_of rk s t))\<rparr>)
      (s\<lparr>pc := (pc s)(t := InG (length (log s)) key)\<rparr>))"
| g_read: "pc s t = InG n key \<Longrightarrow>
    gstep rk t s (s\<lparr>pc := (pc s)(t := HeldG n key (map_of (mem s) key))\<rparr>)"
| g_unlock: "pc s t = HeldG n key r \<Longrightarrow>
    gstep rk t s (set_mutex rk t ((mutex_of rk s t)\<lparr>rcount := rcount (mutex_of rk s t) - 1\<rparr>)
      (s\<lparr>pc := (pc s)(t := DoneG n key r)\<rparr>))"
| g_return: "pc s t = DoneG n key r \<Longrightarrow> gstep rk t s (s\<lparr>pc := (pc s)(t := Idle)\<rparr>)"

definition tstep :: "receiver \<Rightarrow> nat \<Rightarrow> cstate \<Rightarrow> cstate \<Rightarrow> bool" where
  "tstep rk t s s' \<longleftrightarrow> wstep rk t s s' \<or> rstep rk t s s' \<or> gstep rk t s s'"

definition cstep :: "receiver \<Rightarrow> cstate \<Rightarrow> cstate \<Rightarrow> bool" where
  "cstep rk s s' \<longleftrightarrow> (\<exists>t. tstep rk t s s')"

inductive creach :: "receiver \<Rightarrow> cstate \<Rightarrow> bool" for rk where
  init: "creach rk cinit"
| step: "creach rk s \<Longrightarrow> cstep rk s s' \<Longrightarrow> creach rk s'"

section \<open>An executable scheduler\<close>

text \<open>
  A schedule names, at each step, the goroutine that moves: \<open>ACallW t op\<close> and
  \<open>ACallR t\<close> start a write or a read call of goroutine \<open>t\<close>, \<open>AStep t\<close> takes its
  next step, which its program counter determines; \<open>ACallG t key\<close> starts a
  \<open>Get(key)\<close>. \<open>step_fun\<close> is \<open>None\<close> when that
  goroutine cannot move (idle, or blocked on the lock); \<open>exec\<close> runs a schedule.
\<close>

datatype action = ACallW nat op | ACallR nat | ACallG nat string | AStep nat

fun step_fun :: "receiver \<Rightarrow> action \<Rightarrow> cstate \<Rightarrow> cstate option" where
  "step_fun rk (ACallW t op) s =
     (if pc s t = Idle then Some (s\<lparr>recv := (recv s)(t := smu s), pc := (pc s)(t := WaitW op)\<rparr>)
      else None)"
| "step_fun rk (ACallR t) s =
     (if pc s t = Idle then Some (s\<lparr>recv := (recv s)(t := smu s), pc := (pc s)(t := WaitR)\<rparr>)
      else None)"
| "step_fun rk (ACallG t key) s =
     (if pc s t = Idle then Some (s\<lparr>recv := (recv s)(t := smu s), pc := (pc s)(t := WaitG key)\<rparr>)
      else None)"
| "step_fun rk (AStep t) s =
     (case pc s t of
        Idle \<Rightarrow> None
      | WaitW op \<Rightarrow>
          if \<not> wlocked (mutex_of rk s t) \<and> rcount (mutex_of rk s t) = 0
          then Some (set_mutex rk t ((mutex_of rk s t)\<lparr>wlocked := True\<rparr>)
                      (s\<lparr>pc := (pc s)(t := InW op)\<rparr>))
          else None
      | InW op \<Rightarrow>
          Some (s\<lparr>mem := m (apply_op op \<lparr>m = mem s\<rparr>), log := log s @ [op],
                  pc := (pc s)(t := DoneW)\<rparr>)
      | DoneW \<Rightarrow>
          Some (set_mutex rk t ((mutex_of rk s t)\<lparr>wlocked := False\<rparr>) (s\<lparr>pc := (pc s)(t := Idle)\<rparr>))
      | WaitR \<Rightarrow>
          if \<not> wlocked (mutex_of rk s t)
          then Some (set_mutex rk t ((mutex_of rk s t)\<lparr>rcount := Suc (rcount (mutex_of rk s t))\<rparr>)
                      (s\<lparr>pc := (pc s)(t := InR (length (log s)) [])\<rparr>))
          else None
      | InR n got \<Rightarrow>
          if length got < length (mem s)
          then Some (s\<lparr>pc := (pc s)(t := InR n (got @ [snd (mem s ! length got)]))\<rparr>)
          else Some (set_mutex rk t ((mutex_of rk s t)\<lparr>rcount := rcount (mutex_of rk s t) - 1\<rparr>)
                      (s\<lparr>pc := (pc s)(t := DoneR n got)\<rparr>))
      | DoneR n got \<Rightarrow> Some (s\<lparr>pc := (pc s)(t := Idle)\<rparr>)
      | WaitG key \<Rightarrow>
          if \<not> wlocked (mutex_of rk s t)
          then Some (set_mutex rk t ((mutex_of rk s t)\<lparr>rcount := Suc (rcount (mutex_of rk s t))\<rparr>)
                      (s\<lparr>pc := (pc s)(t := InG (length (log s)) key)\<rparr>))
          else None
      | InG n key \<Rightarrow> Some (s\<lparr>pc := (pc s)(t := HeldG n key (map_of (mem s) key))\<rparr>)
      | HeldG n key r \<Rightarrow>
          Some (set_mutex rk t ((mutex_of rk s t)\<lparr>rcount := rcount (mutex_of rk s t) - 1\<rparr>)
                  (s\<lparr>pc := (pc s)(t := DoneG n key r)\<rparr>))
      | DoneG n key r \<Rightarrow> Some (s\<lparr>pc := (pc s)(t := Idle)\<rparr>))"

fun exec :: "receiver \<Rightarrow> action list \<Rightarrow> cstate \<Rightarrow> cstate option" where
  "exec rk [] s = Some s"
| "exec rk (a # as) s = (case step_fun rk a s of None \<Rightarrow> None | Some s' \<Rightarrow> exec rk as s')"

text \<open>
  Example schedules. Goroutine 0 calls \<open>Set("/a", "1")\<close>; goroutine 1 calls a read
  while 0 holds the write lock (\<open>demo_blocked\<close>: with pointer receivers it must wait),
  then completes it after the write (\<open>demo_read\<close>). With value receivers the same read
  enters at once (\<open>race_state\<close>), and a read that overlaps \<open>Del("/a")\<close>,
  \<open>Set("/b", "2")\<close>, \<open>Set("/c", "3")\<close> returns \<open>/a\<close> and \<open>/c\<close> (\<open>torn_state\<close>).
\<close>

definition blocked_sched :: "action list" where
  "blocked_sched = [ACallW 0 (OpSet ''/a'' ''1''), AStep 0, ACallR 1]"

definition read_sched :: "action list" where
  "read_sched = blocked_sched @ [AStep 0, AStep 0, AStep 1, AStep 1, AStep 1]"

definition torn_sched :: "action list" where
  "torn_sched =
     [ACallW 0 (OpSet ''/a'' ''1''), AStep 0, AStep 0, AStep 0,
      ACallR 1, AStep 1, AStep 1,
      ACallW 0 (OpDel ''/a''), AStep 0, AStep 0, AStep 0,
      ACallW 0 (OpSet ''/b'' ''2''), AStep 0, AStep 0, AStep 0,
      ACallW 0 (OpSet ''/c'' ''3''), AStep 0, AStep 0, AStep 0,
      AStep 1, AStep 1]"

definition get_sched :: "action list" where
  "get_sched = [ACallW 0 (OpSet ''/a'' ''1''), AStep 0, ACallG 1 ''/a'', AStep 0, AStep 0,
     AStep 1, AStep 1, AStep 1]"

definition demo_get :: cstate where
  "demo_get = the (exec ByPointer get_sched cinit)"

definition demo_blocked :: cstate where
  "demo_blocked = the (exec ByPointer blocked_sched cinit)"

definition demo_read :: cstate where
  "demo_read = the (exec ByPointer read_sched cinit)"

definition race_state :: cstate where
  "race_state = the (exec ByValue (blocked_sched @ [AStep 1]) cinit)"

definition value_blocked :: cstate where
  "value_blocked = the (exec ByValue blocked_sched cinit)"

definition torn_state :: cstate where
  "torn_state = the (exec ByValue torn_sched cinit)"

section \<open>The invariant\<close>

definition readers_of :: "(nat \<Rightarrow> tstate) \<Rightarrow> nat set" where
  "readers_of p = {t. is_reader (p t)}"

definition writers_of :: "(nat \<Rightarrow> tstate) \<Rightarrow> nat set" where
  "writers_of p = {t. is_writer (p t)}"

text \<open>
  What a goroutine in a read has seen: inside the read lock, a prefix of the current
  map, taken after the logged writes, all of which precede the lock; after the
  unlock, all the entries of the store after the first \<open>n\<close> logged writes. For
  \<open>Get\<close> the same of the one entry it looked up.
\<close>

fun view_ok :: "op list \<Rightarrow> (string \<times> kvpair) list \<Rightarrow> tstate \<Rightarrow> bool" where
  "view_ok l mm (InR n got) \<longleftrightarrow> n = length l \<and> prefix got (map snd mm)"
| "view_ok l mm (DoneR n got) \<longleftrightarrow> n \<le> length l \<and> got = entries (run (take n l) New)"
| "view_ok l mm (InG n key) \<longleftrightarrow> n = length l"
| "view_ok l mm (HeldG n key r) \<longleftrightarrow> n = length l \<and> r = map_of mm key"
| "view_ok l mm (DoneG n key r) \<longleftrightarrow> n \<le> length l \<and> r = map_of (m (run (take n l) New)) key"
| "view_ok l mm _ \<longleftrightarrow> True"

text \<open>
  What the lock and the map keep true together: the map is the store after the logged
  writes; the write flag is set exactly when a goroutine is a writer in its critical
  section, and there is at most one; the reader count counts the goroutines in a read
  critical section, none of which exists while the write lock is held; every goroutine's
  view is \<open>view_ok\<close>.
\<close>

definition cinv :: "cstate \<Rightarrow> bool" where
  "cinv s \<longleftrightarrow>
     mem s = m (run (log s) New) \<and>
     (wlocked (smu s) \<longleftrightarrow> writers_of (pc s) \<noteq> {}) \<and>
     (\<forall>t t'. t \<in> writers_of (pc s) \<longrightarrow> t' \<in> writers_of (pc s) \<longrightarrow> t = t') \<and>
     finite (readers_of (pc s)) \<and> rcount (smu s) = card (readers_of (pc s)) \<and>
     (wlocked (smu s) \<longrightarrow> readers_of (pc s) = {}) \<and>
     (\<forall>t. view_ok (log s) (mem s) (pc s t))"

text \<open>
  With value receivers the store's own mutex is never locked (each call locks a copy),
  so every call starts from a copy of an unlocked mutex.
\<close>

fun waiting :: "tstate \<Rightarrow> bool" where
  "waiting (WaitW _) = True"
| "waiting WaitR = True"
| "waiting (WaitG _) = True"
| "waiting _ = False"

definition vinv :: "cstate \<Rightarrow> bool" where
  "vinv s \<longleftrightarrow> smu s = unlocked \<and> (\<forall>t. waiting (pc s t) \<longrightarrow> recv s t = unlocked)"

lemma cinvI:
  "mem s = m (run (log s) New) \<Longrightarrow>
   (wlocked (smu s) \<longleftrightarrow> writers_of (pc s) \<noteq> {}) \<Longrightarrow>
   (\<forall>t t'. t \<in> writers_of (pc s) \<longrightarrow> t' \<in> writers_of (pc s) \<longrightarrow> t = t') \<Longrightarrow>
   finite (readers_of (pc s)) \<Longrightarrow> rcount (smu s) = card (readers_of (pc s)) \<Longrightarrow>
   (wlocked (smu s) \<longrightarrow> readers_of (pc s) = {}) \<Longrightarrow>
   (\<forall>t. view_ok (log s) (mem s) (pc s t)) \<Longrightarrow> cinv s"
  by (simp add: cinv_def)

lemma cinvD:
  assumes "cinv s"
  shows "mem s = m (run (log s) New)"
    and "wlocked (smu s) \<longleftrightarrow> writers_of (pc s) \<noteq> {}"
    and "t \<in> writers_of (pc s) \<Longrightarrow> t' \<in> writers_of (pc s) \<Longrightarrow> t = t'"
    and "finite (readers_of (pc s))" and "rcount (smu s) = card (readers_of (pc s))"
    and "wlocked (smu s) \<Longrightarrow> readers_of (pc s) = {}"
    and "view_ok (log s) (mem s) (pc s t)"
  using assms unfolding cinv_def by blast+

lemma readers_of_upd [simp]:
  "readers_of (p(t := x)) = (if is_reader x then insert t (readers_of p) else readers_of p - {t})"
  by (auto simp: readers_of_def)

lemma writers_of_upd [simp]:
  "writers_of (p(t := x)) = (if is_writer x then insert t (writers_of p) else writers_of p - {t})"
  by (auto simp: writers_of_def)

lemma all_upd [simp]:
  "(\<forall>t'. P ((p(t := x)) t')) \<longleftrightarrow> P x \<and> (\<forall>t'. t' \<noteq> t \<longrightarrow> P (p t'))"
  by auto

lemma readers_of_Diff_absent [simp]:
  "\<not> is_reader (p t) \<Longrightarrow> readers_of p - {t} = readers_of p"
  by (auto simp: readers_of_def)

lemma writers_of_Diff_absent [simp]:
  "\<not> is_writer (p t) \<Longrightarrow> writers_of p - {t} = writers_of p"
  by (auto simp: writers_of_def)

lemma in_readers_of [simp]: "t \<in> readers_of p \<longleftrightarrow> is_reader (p t)"
  by (simp add: readers_of_def)

lemma in_writers_of [simp]: "t \<in> writers_of p \<longleftrightarrow> is_writer (p t)"
  by (simp add: writers_of_def)

lemma store_m_eta [simp]: "\<lparr>m = m s\<rparr> = (s :: store)"
  by (cases s) simp

lemma run_snoc: "run (ops @ [op]) s = apply_op op (run ops s)"
  by (simp add: run_def)

lemma prefix_snoc_nth:
  assumes "prefix xs ys" and "length xs < length ys"
  shows "prefix (xs @ [ys ! length xs]) ys"
proof -
  from assms obtain zs where ys: "ys = xs @ zs" and "zs \<noteq> []"
    by (auto simp: prefix_def)
  then obtain z zs' where "zs = z # zs'"
    by (cases zs) auto
  with ys show ?thesis
    by (simp add: prefix_def)
qed

lemma prefix_full: "prefix xs ys \<Longrightarrow> length xs = length ys \<Longrightarrow> xs = ys"
  by (auto simp: prefix_def)

lemma view_ok_write:
  "\<not> is_reader x \<Longrightarrow> view_ok l mm x \<Longrightarrow> view_ok (l @ [op]) mm' x"
  by (cases x) auto

lemma cinv_init: "cinv cinit"
  by (simp add: cinv_def cinit_def unlocked_def readers_of_def writers_of_def run_def New_def)

lemma mutex_of_ByPointer [simp]: "mutex_of ByPointer s t = smu s"
  by (simp add: mutex_of_def)

lemma set_mutex_ByPointer [simp]: "set_mutex ByPointer t mu s = s\<lparr>smu := mu\<rparr>"
  by (simp add: set_mutex_def)

lemma mutex_of_ByValue [simp]: "mutex_of ByValue s t = recv s t"
  by (simp add: mutex_of_def)

lemma set_mutex_ByValue [simp]: "set_mutex ByValue t mu s = s\<lparr>recv := (recv s)(t := mu)\<rparr>"
  by (simp add: set_mutex_def)

lemma cinv_wstep:
  assumes "wstep ByPointer t s s'" and "cinv s"
  shows "cinv s'"
  using assms
proof (induction rule: wstep.induct)
  case (w_call s t op)
  then show ?case
    by (auto simp: cinv_def)
next
  case (w_lock s t op)
  then show ?case
    by (auto simp: cinv_def)
next
  case (w_write s t op)
  note inv = \<open>cinv s\<close>
  have w: "t \<in> writers_of (pc s)"
    using w_write by simp
  with inv have locked: "wlocked (smu s)"
    using cinvD(2) by blast
  with inv have nr: "\<not> is_reader (pc s t')" for t'
    using cinvD(6) by fastforce
  have v: "view_ok (log s @ [op]) mm (pc s t')" for mm t'
    using view_ok_write nr cinvD(7) [OF inv] by blast
  show ?case
    by (rule cinvI)
      (use inv w_write w locked nr v cinvD [OF inv] in \<open>simp_all add: run_snoc insert_absorb\<close>)
next
  case (w_unlock s t)
  then have "writers_of (pc s) - {t} = {}"
    by (auto simp: cinv_def)
  with w_unlock show ?case
    by (auto simp: cinv_def)
qed

lemma cinv_rstep:
  assumes "rstep ByPointer t s s'" and "cinv s"
  shows "cinv s'"
  using assms
proof (induction rule: rstep.induct)
  case (r_call s t)
  then show ?case
    by (auto simp: cinv_def)
next
  case (r_lock s t)
  then show ?case
    by (auto simp: cinv_def)
next
  case (r_read s t n got)
  note inv = \<open>cinv s\<close>
  from inv have "view_ok (log s) (mem s) (pc s t)"
    by (rule cinvD)
  with r_read have n: "n = length (log s)" and "prefix got (map snd (mem s))"
    by simp_all
  then have p: "prefix (got @ [snd (mem s ! length got)]) (map snd (mem s))"
    using r_read prefix_snoc_nth [of got "map snd (mem s)"] by simp
  have r: "t \<in> readers_of (pc s)"
    using r_read by simp
  with inv have nl: "\<not> wlocked (smu s)"
    using cinvD(6) by blast
  show ?case
    by (rule cinvI) (use inv r_read n p r nl cinvD [OF inv] in \<open>simp_all add: insert_absorb\<close>)
next
  case (r_unlock s t n got)
  note inv = \<open>cinv s\<close>
  from inv have "view_ok (log s) (mem s) (pc s t)"
    by (rule cinvD)
  with r_unlock have n: "n = length (log s)" and pre: "prefix got (map snd (mem s))"
    by simp_all
  then have "length got \<le> length (mem s)"
    using prefix_length_le by fastforce
  with r_unlock pre have "got = map snd (mem s)"
    using prefix_full [of got "map snd (mem s)"] by simp
  with cinvD(1) [OF inv] have got: "got = entries (run (log s) New)"
    by (simp add: entries_def)
  from inv r_unlock have "finite (readers_of (pc s))" "t \<in> readers_of (pc s)"
    by (simp_all add: cinvD)
  then have "card (readers_of (pc s) - {t}) = card (readers_of (pc s)) - 1"
    by simp
  with inv r_unlock n got show ?case
    by (auto simp: cinv_def)
next
  case (r_return s t n got)
  then show ?case
    by (auto simp: cinv_def)
qed

lemma cinv_gstep:
  assumes "gstep ByPointer t s s'" and "cinv s"
  shows "cinv s'"
  using assms
proof (induction rule: gstep.induct)
  case (g_call s t key)
  then show ?case
    by (auto simp: cinv_def)
next
  case (g_lock s t key)
  then show ?case
    by (auto simp: cinv_def)
next
  case (g_read s t n key)
  note inv = \<open>cinv s\<close>
  from inv have "view_ok (log s) (mem s) (pc s t)"
    by (rule cinvD)
  with g_read have n: "n = length (log s)"
    by simp
  have r: "t \<in> readers_of (pc s)"
    using g_read by simp
  with inv have nl: "\<not> wlocked (smu s)"
    using cinvD(6) by blast
  show ?case
    by (rule cinvI) (use inv g_read n r nl cinvD [OF inv] in \<open>simp_all add: insert_absorb\<close>)
next
  case (g_unlock s t n key r)
  note inv = \<open>cinv s\<close>
  from inv have "view_ok (log s) (mem s) (pc s t)"
    by (rule cinvD)
  with g_unlock cinvD(1) [OF inv] have n: "n = length (log s)"
    and r: "r = map_of (m (run (take n (log s)) New)) key"
    by simp_all
  from inv g_unlock have "finite (readers_of (pc s))" "t \<in> readers_of (pc s)"
    by (simp_all add: cinvD)
  then have "card (readers_of (pc s) - {t}) = card (readers_of (pc s)) - 1"
    by simp
  with inv g_unlock n r show ?case
    by (auto simp: cinv_def)
next
  case (g_return s t n key r)
  then show ?case
    by (auto simp: cinv_def)
qed

lemma cinv_cstep: "cstep ByPointer s s' \<Longrightarrow> cinv s \<Longrightarrow> cinv s'"
  unfolding cstep_def tstep_def using cinv_wstep cinv_rstep cinv_gstep by blast

lemma creach_cinv: "creach ByPointer s \<Longrightarrow> cinv s"
  by (induction rule: creach.induct) (auto intro: cinv_init cinv_cstep)

lemma cstep_wI: "wstep rk t s s' \<Longrightarrow> cstep rk s s'"
  by (auto simp: cstep_def tstep_def)

lemma cstep_rI: "rstep rk t s s' \<Longrightarrow> cstep rk s s'"
  by (auto simp: cstep_def tstep_def)

lemma cstep_gI: "gstep rk t s s' \<Longrightarrow> cstep rk s s'"
  by (auto simp: cstep_def tstep_def)

lemma step_fun_sound:
  assumes "step_fun rk a s = Some s'"
  shows "cstep rk s s'"
proof (cases a)
  case (ACallW t op)
  with assms show ?thesis
    by (auto split: if_splits intro!: cstep_wI w_call)
next
  case (ACallR t)
  with assms show ?thesis
    by (auto split: if_splits intro!: cstep_rI r_call)
next
  case (ACallG t key)
  with assms show ?thesis
    by (auto split: if_splits intro!: cstep_gI g_call)
next
  case (AStep t)
  show ?thesis
  proof (cases "pc s t")
    case (WaitW op)
    with assms AStep show ?thesis
      by (auto split: if_splits intro!: cstep_wI w_lock)
  next
    case (InW op)
    with assms AStep show ?thesis
      by (auto intro!: cstep_wI w_write)
  next
    case DoneW
    with assms AStep show ?thesis
      by (auto intro!: cstep_wI w_unlock)
  next
    case WaitR
    with assms AStep show ?thesis
      by (auto split: if_splits intro!: cstep_rI r_lock)
  next
    case (InR n got)
    show ?thesis
    proof (cases "length got < length (mem s)")
      case True
      with assms AStep InR show ?thesis
        by (auto intro!: cstep_rI r_read)
    next
      case False
      then have "length (mem s) \<le> length got"
        by simp
      from r_unlock [OF InR this] have "cstep rk s (set_mutex rk t
          ((mutex_of rk s t)\<lparr>rcount := rcount (mutex_of rk s t) - 1\<rparr>) (s\<lparr>pc := (pc s)(t := DoneR n got)\<rparr>))"
        by (rule cstep_rI)
      with assms AStep InR False show ?thesis
        by simp
    qed
  next
    case (DoneR n got)
    with assms AStep show ?thesis
      by (auto intro!: cstep_rI r_return)
  next
    case (WaitG key)
    with assms AStep show ?thesis
      by (auto split: if_splits intro!: cstep_gI g_lock)
  next
    case (InG n key)
    with assms AStep show ?thesis
      by (auto intro!: cstep_gI g_read)
  next
    case (HeldG n key r)
    from g_unlock [OF HeldG] have "cstep rk s (set_mutex rk t
        ((mutex_of rk s t)\<lparr>rcount := rcount (mutex_of rk s t) - 1\<rparr>) (s\<lparr>pc := (pc s)(t := DoneG n key r)\<rparr>))"
      by (rule cstep_gI)
    with assms AStep HeldG show ?thesis
      by simp
  next
    case (DoneG n key r)
    with assms AStep show ?thesis
      by (auto intro!: cstep_gI g_return)
  qed (use assms AStep in simp)
qed

lemma exec_reach: "creach rk s \<Longrightarrow> exec rk as s = Some s' \<Longrightarrow> creach rk s'"
proof (induction as arbitrary: s)
  case Nil
  then show ?case
    by simp
next
  case (Cons a as)
  then obtain s1 where "step_fun rk a s = Some s1" and "exec rk as s1 = Some s'"
    by (auto split: option.splits)
  with Cons show ?case
    using step_fun_sound creach.step by blast
qed

lemma vinv_init: "vinv cinit"
  by (simp add: vinv_def cinit_def)

lemma vinv_cstep: "cstep ByValue s s' \<Longrightarrow> vinv s \<Longrightarrow> vinv s'"
  unfolding cstep_def tstep_def
proof (elim exE disjE)
  fix t
  assume "wstep ByValue t s s'" and "vinv s"
  then show "vinv s'"
    by (induction rule: wstep.induct) (auto simp: vinv_def)
next
  fix t
  assume "rstep ByValue t s s'" and "vinv s"
  then show "vinv s'"
    by (induction rule: rstep.induct) (auto simp: vinv_def)
next
  fix t
  assume "gstep ByValue t s s'" and "vinv s"
  then show "vinv s'"
    by (induction rule: gstep.induct) (auto simp: vinv_def)
qed

lemma creach_vinv: "creach ByValue s \<Longrightarrow> vinv s"
  by (induction rule: creach.induct) (auto intro: vinv_init vinv_cstep)

lemma set_mutex_sel [simp]:
  "mem (set_mutex rk t mu s) = mem s" "log (set_mutex rk t mu s) = log s"
  "pc (set_mutex rk t mu s) = pc s"
  by (cases rk; simp)+

lemma reach_exec: "exec rk as cinit = Some s \<Longrightarrow> creach rk s"
  by (rule exec_reach [OF creach.init])

lemmas demo_defs = blocked_sched_def read_sched_def torn_sched_def get_sched_def cinit_def unlocked_def
  Set_def Del_def New_def

lemma demo_blocked_reach: "creach ByPointer demo_blocked"
  by (rule reach_exec [of _ blocked_sched]) (simp add: demo_blocked_def demo_defs)

lemma demo_read_reach: "creach ByPointer demo_read"
  by (rule reach_exec [of _ read_sched]) (simp add: demo_read_def demo_defs)

lemma value_blocked_reach: "creach ByValue value_blocked"
  by (rule reach_exec [of _ blocked_sched]) (simp add: value_blocked_def demo_defs)

lemma race_state_reach: "creach ByValue race_state"
  by (rule reach_exec [of _ "blocked_sched @ [AStep 1]"]) (simp add: race_state_def demo_defs)

lemma demo_get_reach: "creach ByPointer demo_get"
  by (rule reach_exec [of _ get_sched]) (simp add: demo_get_def demo_defs)

lemma torn_state_reach: "creach ByValue torn_state"
  by (rule reach_exec [of _ torn_sched]) (simp add: torn_state_def demo_defs)

lemma tstepI:
  "wstep rk t s s' \<Longrightarrow> tstep rk t s s'" "rstep rk t s s' \<Longrightarrow> tstep rk t s s'"
  "gstep rk t s s' \<Longrightarrow> tstep rk t s s'"
  by (simp_all add: tstep_def)

lemma reader_progress:
  assumes "pc s r = InR n got"
  shows "\<exists>s'. rstep rk r s s'"
proof (cases "length got < length (mem s)")
  case True
  with assms show ?thesis
    by (blast intro: r_read)
next
  case False
  then have "length (mem s) \<le> length got"
    by simp
  with assms show ?thesis
    by (blast intro: r_unlock)
qed

text \<open>A goroutine inside a call and not waiting for a lock can always move.\<close>

lemma thread_progress:
  assumes "pc s t \<noteq> Idle" and "\<not> waiting (pc s t)"
  shows "\<exists>s'. tstep rk t s s'"
proof (cases "pc s t")
  case (InW op)
  then show ?thesis
    by (blast intro: tstepI w_write)
next
  case DoneW
  then show ?thesis
    by (blast intro: tstepI w_unlock)
next
  case (InR n got)
  then show ?thesis
    using reader_progress tstepI by blast
next
  case (DoneR n got)
  then show ?thesis
    by (blast intro: tstepI r_return)
next
  case (InG n key)
  then show ?thesis
    by (blast intro: tstepI g_read)
next
  case (HeldG n key r)
  then show ?thesis
    by (blast intro: tstepI g_unlock)
next
  case (DoneG n key r)
  then show ?thesis
    by (blast intro: tstepI g_return)
qed (use assms in simp_all)

text \<open>A goroutine waiting for a lock moves when its mutex is free.\<close>

lemma lock_progress:
  assumes "waiting (pc s t)" and "\<not> wlocked (mutex_of rk s t)" and "rcount (mutex_of rk s t) = 0"
  shows "\<exists>s'. tstep rk t s s'"
proof (cases "pc s t")
  case (WaitW op)
  with assms show ?thesis
    by (blast intro: tstepI w_lock)
next
  case WaitR
  with assms show ?thesis
    by (blast intro: tstepI r_lock)
next
  case (WaitG key)
  with assms show ?thesis
    by (blast intro: tstepI g_lock)
qed (use assms in simp_all)

section \<open>Properties with pointer receivers: the discipline of the spec\<close>

text \<open>
  C24. No data race with pointer receivers: while a goroutine holds the write lock of
  \<open>Set\<close> or \<open>Del\<close> (between \<open>Lock\<close> and \<open>Unlock\<close>), no other goroutine is writing
  and none is reading the map inside a read lock, in every reachable state.
\<close>

theorem no_data_race:
  assumes "creach ByPointer s" and "is_writer (pc s t)" and "t' \<noteq> t"
  shows "\<not> is_writer (pc s t') \<and> \<not> is_reader (pc s t')"
proof -
  have inv: "cinv s"
    using assms(1) by (rule creach_cinv)
  have "\<not> is_writer (pc s t')"
    using cinvD(3) [OF inv, of t t'] assms(2,3) by auto
  moreover have "t \<in> writers_of (pc s)"
    using assms(2) by simp
  then have "wlocked (smu s)"
    using cinvD(2) [OF inv] by blast
  then have "\<not> is_reader (pc s t')"
    using cinvD(6) [OF inv] by auto
  ultimately show ?thesis ..
qed

theorem no_data_race_witness: "\<not> is_writer (pc demo_blocked 1) \<and> \<not> is_reader (pc demo_blocked 1)"
  using no_data_race [OF demo_blocked_reach, of 0 1] by (simp add: demo_blocked_def demo_defs)

text \<open>
  C25. Reads are consistent snapshots with pointer receivers: when a read has released
  its read lock, the entries it read one by one in the range loop are exactly the
  entries of the store after the first \<open>n\<close> writes in the order they took effect, \<open>n\<close>
  being the number of writes completed when it took the lock.
\<close>

theorem read_snapshot:
  assumes "creach ByPointer s" and "pc s t = DoneR n got"
  shows "n \<le> length (log s) \<and> got = entries (run (take n (log s)) New)"
proof -
  have "view_ok (log s) (mem s) (pc s t)"
    using creach_cinv [OF assms(1)] by (rule cinvD)
  with assms(2) show ?thesis
    by simp
qed

theorem read_snapshot_witness:
  "1 \<le> length (log demo_read) \<and>
   [\<lparr>Key = ''/a'', Value = ''1''\<rparr>] = entries (run (take 1 (log demo_read)) New)"
  using read_snapshot [OF demo_read_reach, of 1 1 "[\<lparr>Key = ''/a'', Value = ''1''\<rparr>]"]
  by (simp add: demo_read_def demo_defs)

text \<open>
  No deadlock with pointer receivers: in every reachable state in which some
  goroutine is inside a call, some goroutine inside a call (not one starting a new call)
  can take a step; a blocked \<open>Lock\<close> or \<open>RLock\<close> waits only for a lock holder that
  can proceed.
\<close>

theorem deadlock_free:
  assumes "creach ByPointer s" and "pc s t \<noteq> Idle"
  shows "\<exists>t' s'. pc s t' \<noteq> Idle \<and> tstep ByPointer t' s s'"
proof -
  have inv: "cinv s"
    using assms(1) by (rule creach_cinv)
  show ?thesis
  proof (cases "wlocked (smu s)")
    case True
    then obtain w where "is_writer (pc s w)"
      using cinvD(2) [OF inv] by auto
    then have "pc s w \<noteq> Idle" "\<not> waiting (pc s w)"
      by (cases "pc s w"; simp)+
    then show ?thesis
      using thread_progress by blast
  next
    case unlocked: False
    show ?thesis
    proof (cases "readers_of (pc s) = {}")
      case False
      then obtain r where "is_reader (pc s r)"
        by auto
      then have "pc s r \<noteq> Idle" "\<not> waiting (pc s r)"
        by (cases "pc s r"; simp)+
      then show ?thesis
        using thread_progress by blast
    next
      case True
      then have "rcount (smu s) = 0"
        using cinvD(5) [OF inv] by simp
      with unlocked have "\<exists>s'. tstep ByPointer t s s'"
        using assms(2) thread_progress lock_progress by (cases "waiting (pc s t)") auto
      with assms(2) show ?thesis
        by blast
    qed
  qed
qed

theorem deadlock_free_witness:
  "\<exists>t' s'. pc demo_blocked t' \<noteq> Idle \<and> tstep ByPointer t' demo_blocked s'"
  using deadlock_free [OF demo_blocked_reach, of 1] by (simp add: demo_blocked_def demo_defs)

section \<open>Properties with value receivers: the code as written\<close>

text \<open>
  C27. Data race in the code: the methods of src/store.go have value receivers, so each
  call locks its own copy of the store's mutex. A reachable state has goroutine 0 inside
  the write critical section of \<open>Set\<close> and goroutine 1 inside a read critical section.
\<close>

theorem value_receiver_race: "\<exists>s. creach ByValue s \<and> is_writer (pc s 0) \<and> is_reader (pc s 1)"
proof -
  have "is_writer (pc race_state 0) \<and> is_reader (pc race_state 1)"
    by (simp add: race_state_def demo_defs)
  with race_state_reach show ?thesis
    by blast
qed

text \<open>
  C28. Torn read in the code: with value receivers a read that overlaps writes can
  return entries that no state of the store ever held together; here \<open>/a\<close> and \<open>/c\<close>,
  although \<open>/a\<close> was deleted before \<open>/c\<close> was set. The result is none of the snapshots
  of the store after a prefix of the writes.
\<close>

theorem value_receiver_torn_read:
  "\<exists>s n got. creach ByValue s \<and> pc s 1 = DoneR n got \<and>
     got \<notin> set (map (\<lambda>k. entries (run (take k (log s)) New)) [0..<Suc (length (log s))])"
proof -
  have "pc torn_state 1 = DoneR 1 [\<lparr>Key = ''/a'', Value = ''1''\<rparr>, \<lparr>Key = ''/c'', Value = ''3''\<rparr>]"
    by (simp add: torn_state_def demo_defs)
  moreover have "[\<lparr>Key = ''/a'', Value = ''1''\<rparr>, \<lparr>Key = ''/c'', Value = ''3''\<rparr>] \<notin>
      set (map (\<lambda>k. entries (run (take k (log torn_state)) New)) [0..<Suc (length (log torn_state))])"
    by (simp add: torn_state_def demo_defs run_def entries_def upt_rec)
  ultimately show ?thesis
    using torn_state_reach by blast
qed

text \<open>
  C29. The locks of the code never block: with value receivers every goroutine inside a
  call can take its next step in every reachable state, \<open>Lock\<close> and \<open>RLock\<close> included,
  whatever the other goroutines hold.
\<close>

theorem value_receiver_never_blocks:
  assumes "creach ByValue s" and "pc s t \<noteq> Idle"
  shows "\<exists>s'. tstep ByValue t s s'"
proof (cases "waiting (pc s t)")
  case True
  with creach_vinv [OF assms(1)] have "recv s t = unlocked"
    by (simp add: vinv_def)
  with True show ?thesis
    by (intro lock_progress) (simp_all add: unlocked_def)
next
  case False
  with assms(2) show ?thesis
    by (rule thread_progress)
qed

theorem value_receiver_never_blocks_witness: "\<exists>s'. tstep ByValue 1 value_blocked s'"
  using value_receiver_never_blocks [OF value_blocked_reach, of 1]
  by (simp add: value_blocked_def demo_defs)

section \<open>Get\<close>

text \<open>
  C31. \<open>Get\<close> under concurrency with pointer receivers: what a completed \<open>Get(key)\<close>
  returns is \<open>Get(key)\<close> on the store after the writes completed before it took the
  read lock.
\<close>

theorem get_snapshot:
  assumes "creach ByPointer s" and "pc s t = DoneG n key r"
  shows "n \<le> length (log s) \<and> get_result r = Get key (run (take n (log s)) New)"
proof -
  have "view_ok (log s) (mem s) (pc s t)"
    using creach_cinv [OF assms(1)] by (rule cinvD)
  with assms(2) show ?thesis
    by (simp add: get_result_def Get_def)
qed

theorem get_snapshot_witness:
  "1 \<le> length (log demo_get) \<and>
   get_result (Some \<lparr>Key = ''/a'', Value = ''1''\<rparr>) = Get ''/a'' (run (take 1 (log demo_get)) New)"
  using get_snapshot [OF demo_get_reach, of 1 1 "''/a''" "Some \<lparr>Key = ''/a'', Value = ''1''\<rparr>"]
  by (simp add: demo_get_def demo_defs)

end
