(* ===== verification/GoLock.thy ===== *)
theory GoLock
  imports Concurrency
begin

text \<open>
  Go's \<open>sync.RWMutex\<close> prefers writers: \<open>Lock\<close> first takes the mutex's internal
  writer mutex \<open>w\<close> and announces itself (it makes \<open>readerCount\<close> negative); from then
  on a new \<open>RLock\<close> waits, the writer waits only for the readers already inside, and
  \<open>Unlock\<close> lets the waiting readers in and releases \<open>w\<close>. The steps of
  \<open>Concurrency\<close> let a reader in whenever no writer holds the lock; here a state is the
  model's state with the goroutine holding \<open>w\<close>, and \<open>gostep\<close> admits the model's
  steps as Go's lock orders them, with pointer receivers (the discipline of the spec).
  Every run of \<open>gostep\<close> is a run of the model (\<open>go_reach_model\<close>), so what the model
  proves of every reachable state holds under Go's lock; and Go's lock cannot deadlock
  either (\<open>deadlock_free_go\<close>).
\<close>

type_synonym gstate = "cstate \<times> nat option"

text \<open>The control flow of one call: what a goroutine's next program counter may be.\<close>

fun tmove :: "tstate \<Rightarrow> tstate \<Rightarrow> bool" where
  "tmove Idle x = waiting x"
| "tmove (WaitW op) x = (x = InW op)"
| "tmove (InW op) x = (x = DoneW)"
| "tmove DoneW x = (x = Idle)"
| "tmove WaitR x = (case x of InR n got \<Rightarrow> got = [] | _ \<Rightarrow> False)"
| "tmove (InR n got) x = (case x of InR n' got' \<Rightarrow> n' = n | DoneR n' got' \<Rightarrow> n' = n | _ \<Rightarrow> False)"
| "tmove (DoneR n got) x = (x = Idle)"
| "tmove (WaitG key) x = (case x of InG n k \<Rightarrow> k = key | _ \<Rightarrow> False)"
| "tmove (InG n key) x = (case x of HeldG n' k r \<Rightarrow> n' = n \<and> k = key | _ \<Rightarrow> False)"
| "tmove (HeldG n key r) x = (x = DoneG n key r)"
| "tmove (DoneG n key r) x = (x = Idle)"

text \<open>The writer side of a call: from \<open>Lock()\<close> to \<open>Unlock()\<close>.\<close>

fun wside :: "tstate \<Rightarrow> bool" where
  "wside (WaitW _) = True"
| "wside (InW _) = True"
| "wside DoneW = True"
| "wside _ = False"

fun rwaiting :: "tstate \<Rightarrow> bool" where
  "rwaiting WaitR = True"
| "rwaiting (WaitG _) = True"
| "rwaiting _ = False"

text \<open>
  \<open>go_announce\<close>: \<open>Lock()\<close> takes \<open>w\<close>, which is free; \<open>go_wlock\<close>: the holder of
  \<open>w\<close> takes the write lock once the readers are out; \<open>go_wunlock\<close>: \<open>Unlock()\<close>
  releases the lock and \<open>w\<close>; \<open>go_rlock\<close>: \<open>RLock()\<close> proceeds only when no writer
  holds \<open>w\<close>; \<open>go_other\<close>: every step that takes or releases no lock.
\<close>

inductive gostep :: "nat \<Rightarrow> gstate \<Rightarrow> gstate \<Rightarrow> bool" where
  go_announce: "pc s t = WaitW op \<Longrightarrow> gostep t (s, None) (s, Some t)"
| go_wlock: "pc s t = WaitW op \<Longrightarrow> tstep ByPointer t s s' \<Longrightarrow> gostep t (s, Some t) (s', Some t)"
| go_wunlock: "pc s t = DoneW \<Longrightarrow> tstep ByPointer t s s' \<Longrightarrow> gostep t (s, Some t) (s', None)"
| go_rlock: "rwaiting (pc s t) \<Longrightarrow> tstep ByPointer t s s' \<Longrightarrow> gostep t (s, None) (s', None)"
| go_other: "\<not> waiting (pc s t) \<Longrightarrow> pc s t \<noteq> DoneW \<Longrightarrow> tstep ByPointer t s s' \<Longrightarrow>
    gostep t (s, p) (s', p)"

inductive go_reach :: "gstate \<Rightarrow> bool" where
  go_init: "go_reach (cinit, None)"
| go_step: "go_reach g \<Longrightarrow> gostep t g g' \<Longrightarrow> go_reach g'"

text \<open>A writer that has called \<open>Lock()\<close> on an idle store and taken \<open>w\<close>.\<close>

definition pending_demo :: cstate where
  "pending_demo = cinit\<lparr>recv := (recv cinit)(0 := smu cinit),
                        pc := (pc cinit)(0 := WaitW (OpSet ''/a'' ''1''))\<rparr>"

text \<open>
  The invariant of \<open>w\<close>: a writer in its critical section holds it, and its holder is
  on the writer side of its call.
\<close>

definition winv :: "gstate \<Rightarrow> bool" where
  "winv g \<longleftrightarrow>
     (\<forall>u. is_writer (pc (fst g) u) \<longrightarrow> snd g = Some u) \<and>
     (\<forall>w. snd g = Some w \<longrightarrow> wside (pc (fst g) w))"

section \<open>One step of one goroutine\<close>

lemma tstep_pc:
  "tstep rk t s s' \<Longrightarrow> pc s' = (pc s)(t := pc s' t) \<and> tmove (pc s t) (pc s' t)"
  unfolding tstep_def
  by (elim disjE wstep.cases rstep.cases gstep.cases) (auto simp: set_mutex_def split: receiver.splits)

lemma tmove_writer: "tmove x y \<Longrightarrow> is_writer y \<Longrightarrow> is_writer x \<or> (\<exists>op. x = WaitW op)"
  by (cases x; cases y) auto

lemma tmove_wside: "tmove x y \<Longrightarrow> wside x \<Longrightarrow> \<not> waiting x \<Longrightarrow> x \<noteq> DoneW \<Longrightarrow> wside y"
  by (cases x; cases y) auto

lemma tmove_rwaiting: "tmove x y \<Longrightarrow> rwaiting x \<Longrightarrow> \<not> is_writer y \<and> \<not> wside y"
  by (cases x; cases y) (auto split: tstate.splits)

lemma tmove_reader: "tmove x y \<Longrightarrow> is_reader y \<Longrightarrow> is_reader x \<or> rwaiting x"
  by (cases x; cases y) (auto split: tstate.splits)

lemma gostep_tstep: "gostep t (s, p) (s', p') \<Longrightarrow> s' = s \<or> tstep ByPointer t s s'"
  by (erule gostep.cases) auto

lemma go_reach_model: "go_reach g \<Longrightarrow> creach ByPointer (fst g)"
proof (induction rule: go_reach.induct)
  case go_init
  then show ?case
    by (simp add: creach.init)
next
  case (go_step g t g')
  obtain s p s' p' where g: "g = (s, p)" "g' = (s', p')"
    by (cases g; cases g')
  with go_step have "s' = s \<or> tstep ByPointer t s s'"
    using gostep_tstep by blast
  then show ?case
  proof
    assume "s' = s"
    with go_step g show ?case
      by simp
  next
    assume "tstep ByPointer t s s'"
    then have "cstep ByPointer s s'"
      by (auto simp: cstep_def)
    with go_step g show ?case
      using creach.step [of ByPointer s s'] by simp
  qed
qed

lemma winv_init: "winv (cinit, None)"
  by (simp add: winv_def cinit_def)

lemma winv_gostep:
  assumes "gostep t g g'" and "winv g"
  shows "winv g'"
  using assms(1)
proof cases
  case (go_announce s op)
  with assms(2) show ?thesis
    by (auto simp: winv_def)
next
  case (go_wlock s op s')
  then have "pc s' = (pc s)(t := InW op)"
    using tstep_pc [of ByPointer t s s'] by auto
  with go_wlock assms(2) show ?thesis
    by (auto simp: winv_def)
next
  case (go_wunlock s s')
  then have "pc s' = (pc s)(t := Idle)"
    using tstep_pc [of ByPointer t s s'] by auto
  with go_wunlock assms(2) show ?thesis
    by (auto simp: winv_def)
next
  case (go_rlock s s')
  then obtain y where "pc s' = (pc s)(t := y)" "\<not> is_writer y"
    using tstep_pc [of ByPointer t s s'] tmove_rwaiting by blast
  with go_rlock assms(2) show ?thesis
    by (auto simp: winv_def)
next
  case (go_other s s' p)
  then obtain y where pc: "pc s' = (pc s)(t := y)" and mv: "tmove (pc s t) y"
    using tstep_pc [of ByPointer t s s'] by blast
  have "is_writer y \<Longrightarrow> is_writer (pc s t)"
    using tmove_writer [OF mv] go_other by auto
  moreover have "wside (pc s t) \<Longrightarrow> wside y"
    using tmove_wside [OF mv] go_other by auto
  ultimately show ?thesis
    using go_other assms(2) pc by (auto simp: winv_def)
qed

lemma go_reach_winv: "go_reach g \<Longrightarrow> winv g"
  by (induction rule: go_reach.induct) (auto intro: winv_init winv_gostep)

lemma pending_demo_reach: "go_reach (pending_demo, Some 0)"
proof -
  have "tstep ByPointer 0 cinit pending_demo"
    unfolding pending_demo_def by (rule tstepI(1), rule w_call) (simp add: cinit_def)
  then have "gostep 0 (cinit, None) (pending_demo, None)"
    using go_other [of cinit 0 pending_demo None] by (simp add: cinit_def)
  moreover have "gostep 0 (pending_demo, None) (pending_demo, Some 0)"
    by (rule go_announce) (simp add: pending_demo_def)
  ultimately show ?thesis
    by (meson go_reach.go_init go_reach.go_step)
qed

section \<open>Go's lock orders the goroutines as the spec requires\<close>

text \<open>
  Writer preference: while a writer holds \<open>w\<close>, having called \<open>Lock()\<close>, no goroutine
  enters a read critical section; the readers inside leave, and the writer is next.
\<close>

theorem go_no_new_reader:
  "gostep t (s, Some w) (s', p') \<Longrightarrow> readers_of (pc s') \<subseteq> readers_of (pc s)"
proof (erule gostep.cases)
  fix sa ta s'' p
  assume eq: "t = ta" "(s, Some w) = (sa, p)" "(s', p') = (s'', p)"
    and nw: "\<not> waiting (pc sa ta)" and st: "tstep ByPointer ta sa s''"
  then obtain y where pc: "pc s' = (pc s)(t := y)" and mv: "tmove (pc s t) y"
    using tstep_pc [of ByPointer ta sa s''] by auto
  have "is_reader y \<Longrightarrow> is_reader (pc s t)"
    using tmove_reader [OF mv] nw eq by (cases "pc s t") auto
  with pc show ?thesis
    by (auto simp: readers_of_def)
qed (auto dest!: tstep_pc simp: readers_of_def split: if_splits)

text \<open>A goroutine inside a call that is not waiting for a lock can move under Go's lock.\<close>

lemma go_running_progress:
  assumes "winv (s, p)" and "pc s u \<noteq> Idle" and "\<not> waiting (pc s u)"
  shows "\<exists>g'. gostep u (s, p) g'"
proof -
  obtain s' where st: "tstep ByPointer u s s'"
    using thread_progress assms(2,3) by blast
  show ?thesis
  proof (cases "pc s u = DoneW")
    case True
    then have "p = Some u"
      using assms(1) by (simp add: winv_def)
    with True st show ?thesis
      by (blast intro: go_wunlock)
  next
    case False
    with st assms(3) show ?thesis
      by (blast intro: go_other)
  qed
qed

text \<open>
  When every goroutine inside a call waits for a lock, the lock is free, and the holder
  of \<open>w\<close> takes it, or, with \<open>w\<close> free, any waiting goroutine proceeds.
\<close>

lemma go_blocked_progress:
  assumes inv: "cinv s" and wi: "winv (s, p)" and t: "pc s t \<noteq> Idle"
    and blocked: "\<And>u. pc s u \<noteq> Idle \<Longrightarrow> waiting (pc s u)"
  shows "\<exists>t' g'. pc s t' \<noteq> Idle \<and> gostep t' (s, p) g'"
proof -
  have "\<not> is_writer (pc s u)" "\<not> is_reader (pc s u)" for u
    using blocked [of u] by (cases "pc s u"; auto)+
  then have "writers_of (pc s) = {}" "readers_of (pc s) = {}"
    by (simp_all add: writers_of_def readers_of_def)
  then have free: "\<not> wlocked (mutex_of ByPointer s u)" "rcount (mutex_of ByPointer s u) = 0" for u
    using cinvD(2,5) [OF inv] by simp_all
  show ?thesis
  proof (cases p)
    case (Some w)
    then have "wside (pc s w)"
      using wi by (simp add: winv_def)
    with blocked [of w] obtain op where w: "pc s w = WaitW op"
      by (cases "pc s w") auto
    then obtain s' where "tstep ByPointer w s s'"
      using lock_progress [of s w ByPointer] free by auto
    with w have "gostep w (s, Some w) (s', Some w)"
      by (rule go_wlock)
    with w Some show ?thesis
      by (metis tstate.distinct(1))
  next
    case None
    have wt: "waiting (pc s t)"
      using blocked t .
    show ?thesis
    proof (cases "rwaiting (pc s t)")
      case True
      then obtain s' where "tstep ByPointer t s s'"
        using lock_progress [of s t ByPointer] free wt by auto
      with True None t show ?thesis
        by (blast intro: go_rlock)
    next
      case False
      with wt obtain op where "pc s t = WaitW op"
        by (cases "pc s t") auto
      with None t show ?thesis
        by (blast intro: go_announce)
    qed
  qed
qed

text \<open>
  C26. No deadlock under Go's lock, as spec section 5 promises: with pointer receivers
  and \<open>sync.RWMutex\<close>'s writer preference, in every reachable state in which some
  goroutine is inside a call, some goroutine inside a call can take a step. A waiting
  writer waits only for the readers inside, who can move; readers blocked behind it wait
  for a writer that can move.
\<close>

theorem deadlock_free_go:
  assumes "go_reach (s, p)" and "pc s t \<noteq> Idle"
  shows "\<exists>t' g'. pc s t' \<noteq> Idle \<and> gostep t' (s, p) g'"
proof -
  have inv: "cinv s"
    using go_reach_model [OF assms(1)] by (simp add: creach_cinv)
  have wi: "winv (s, p)"
    using go_reach_winv [OF assms(1)] .
  show ?thesis
  proof (cases "\<exists>u. pc s u \<noteq> Idle \<and> \<not> waiting (pc s u)")
    case True
    then show ?thesis
      using go_running_progress [OF wi] by blast
  next
    case False
    then show ?thesis
      using go_blocked_progress [OF inv wi assms(2)] by blast
  qed
qed

theorem deadlock_free_go_witness:
  "go_reach (pending_demo, Some 0) \<and> pc pending_demo 0 \<noteq> Idle \<and>
   (\<exists>t' g'. pc pending_demo t' \<noteq> Idle \<and> gostep t' (pending_demo, Some 0) g')"
proof -
  have "pc pending_demo 0 \<noteq> Idle"
    by (simp add: pending_demo_def)
  with deadlock_free_go [OF pending_demo_reach] pending_demo_reach show ?thesis
    by blast
qed

end
