(* ===== verification/Spec2Isabelle.thy ===== *)
theory Spec2Isabelle
  imports GoApi GoLock
begin

text \<open>
  A verification development of memkv (src/store.go), an in-memory key/value store keyed
  by path-like strings such as \<open>/app/db/host\<close>.

  \<^bold>\<open>The program.\<close> \<open>Store\<close> (lines 21--24) is a Go map \<open>m\<close> from keys to
  \<open>KVPair{Key, Value}\<close> with an embedded \<open>sync.RWMutex\<close>. \<open>New\<close> makes an empty
  store; \<open>Set\<close> and \<open>Del\<close> write one entry under the write lock; \<open>Get\<close> and
  \<open>GetValue\<close> look one key up under the read lock. \<open>GetAll\<close> ranges over the map under
  the read lock, keeps the entries whose key \<open>filepath.Match\<close>es a glob pattern, fails
  with the matcher's error or with \<open>ErrNoMatch\<close>, and sorts the result by key;
  \<open>GetAllValues\<close> projects it to the values. \<open>List\<close> and \<open>ListDir\<close> range over the
  map, take the keys that start with a path, strip it, drop one more byte
  (\<open>strippedKey[1:]\<close>) and collect the first \<open>/\<close>-separated segment (\<open>ListDir\<close> only
  of keys that go on below it), returning the set sorted.

  \<^bold>\<open>The theories.\<close>
  \<^item> \<open>Prelude\<close>: the \<open>error\<close> datatype (\<open>ErrNotExist\<close>, \<open>ErrNoMatch\<close>,
    \<open>ErrBadPattern\<close>, and \<open>ErrSliceBounds\<close> for Go's slice panic), \<open>err_part\<close>,
    \<open>splitN2\<close> for \<open>strings.SplitN(_, "/", 2)\<close>, and the facts on sorting by a key
    that make \<open>sort.Sort\<close> deterministic on distinct keys.
  \<^item> \<open>Glob\<close>: Go's \<open>path/filepath.Match\<close>, function by function (\<open>getEsc\<close>,
    \<open>classRanges\<close>, \<open>matchChunk\<close>, \<open>scanChunk\<close>, \<open>starScan\<close>, \<open>checkRest\<close>,
    \<open>chunkStep\<close>, \<open>Match\<close>), with the lemma that its errors depend on the pattern
    only (\<open>Match_errors\<close>) and the behaviour of literal patterns, \<open>*\<close> and an
    unterminated class.
  \<^item> \<open>GlobSpec\<close>: the glob semantics the spec asks for. \<open>parse_glob\<close> reads a
    pattern into items (star, \<open>?\<close>, literal, class) with Go's own tokenizer,
    \<open>glob_lang\<close> is the language of the items (a star spans a run of non-separator
    characters), \<open>gmatch\<close> decides it by backtracking. \<open>Match_gmatch\<close> proves
    that Go's \<open>Match\<close>, which commits each star to the first position where the next
    chunk fits, decides that language on every well-formed pattern whose classes do not
    contain \<open>/\<close>: the chunk loop matches a fixed-length prefix
    (\<open>matchChunk_loop_parse\<close>), and the first fit after a star is as good as any
    (\<open>star_greedy\<close>).
  \<^item> \<open>Store\<close>: the sequential store. The map is an association list with distinct keys,
    whose order is the map's iteration order; \<open>New\<close>, \<open>Set\<close>, \<open>Del\<close>, \<open>Get\<close>,
    \<open>GetValue\<close>, \<open>GetAll\<close>, \<open>GetAllValues\<close>, \<open>List\<close>, \<open>ListDir\<close> are one
    definition each, the range loops \<open>getAll_scan\<close>, \<open>list_scan\<close> and
    \<open>listDir_scan\<close>, and the queries are also defined over any enumeration of the
    entries (\<open>getAll_with\<close>, \<open>List_with\<close>, \<open>ListDir_with\<close>). Writes form a
    \<open>datatype op\<close> run by \<open>run\<close>, and refine a partial map \<open>string \<rightharpoonup> string\<close>
    (\<open>abs_of\<close>, \<open>abs_run\<close>).
  \<^item> \<open>GoApi\<close>: the methods with the values Go returns beside an error
    (\<open>Get_go\<close>, \<open>GetValue_go\<close>, \<open>GetAll_go\<close>, \<open>GetAllValues_go\<close>,
    \<open>List_go\<close>, \<open>ListDir_go\<close>): the zero \<open>KVPair{}\<close> of the comma-ok map
    read (\<open>map_index\<close>), \<open>""\<close>, and slices that are \<open>nil\<close> or not
    (\<open>datatype slice\<close>, \<open>append_slice\<close>). \<open>go_sum\<close> reads a Go pair as the
    \<open>Store\<close> model's result, and dropping the value gives the \<open>Store\<close> operations
    back (\<open>go_sum_model\<close>).
  \<^item> \<open>Concurrency\<close>: goroutines interleaving calls, as an inductive step relation on the
    shared map, the store's mutex, each call's receiver copy and each goroutine's program
    counter, with \<open>Set\<close>/\<open>Del\<close> (\<open>wstep\<close>), the range loops (\<open>rstep\<close>) and
    \<open>Get\<close> (\<open>gstep\<close>) as its goroutines; \<open>ByValue\<close> is the code (value receivers lock a copy of the mutex),
    \<open>ByPointer\<close> the spec's discipline (one shared lock). An executable scheduler
    (\<open>step_fun\<close>, \<open>exec\<close>) runs example schedules, whose runs are runs of
    the relation (\<open>exec_reach\<close>).
  \<^item> \<open>GoLock\<close>: the writer preference of Go's \<open>sync.RWMutex\<close> over the pointer-receiver
    model. A state is the model's state with the goroutine that holds the mutex's internal
    writer mutex \<open>w\<close>, having announced itself in \<open>Lock()\<close>. \<open>gostep\<close> lets
    \<open>RLock()\<close> in only while no writer holds \<open>w\<close>, and lets the holder of
    \<open>w\<close> take the lock once the readers are out. \<open>winv\<close> is the invariant of
    \<open>w\<close>, and \<open>tmove\<close> the control flow of one call.

  \<^bold>\<open>What is proved.\<close>
  \<^item> C1--C4, C17--C19: the point operations: \<open>Get\<close> after \<open>Set\<close> and \<open>Del\<close>, other
    keys untouched, deleting an absent key a no-op, a key never set absent, the store
    invariant (distinct keys, each entry stored under its own key) kept by every run of
    writes, and the refinement of the store by a partial map.
  \<^item> C13, C20, C21, in \<open>GoApi\<close>: the Go results. \<open>Get\<close> and \<open>GetValue\<close> implement
    the partial map with the zero values the comments promise. \<open>GetAllValues\<close> fails
    beside an empty non-\<open>nil\<close> slice, as the spec requires. \<open>List\<close> and
    \<open>ListDir\<close>, which append the names to a non-\<open>nil\<close> empty slice in Go's map order
    and sort it, return the \<open>Store\<close> results as non-\<open>nil\<close> slices for every
    enumeration of the names.
  \<^item> C5--C8, C12, C22, C23, C30: \<open>GetAll\<close>: its result is the entries that match,
    sorted by key, whatever the iteration order, at least one and at most one per entry;
    its errors, on an empty store too; literal patterns; C23: on patterns whose classes
    do not contain the separator, exactly the keys in the spec's glob language. Where a
    class does contain it, \<open>GetAll_class_separator\<close> exhibits keys across a
    \<open>/\<close> and keys missed by the greedy star search.
  \<^item> C9--C11, C15, C16: \<open>List\<close> and \<open>ListDir\<close>: their results as the sorted sets of
    first segments, independent of iteration order; the panic on a key equal to the
    path; \<open>ListDir\<close> a subset of \<open>List\<close>; no names when no key has the prefix.
    \<open>List_non_boundary_example\<close> shows what keys that share a prefix but not a
    directory give.
  \<^item> C14, in this theory: the components composed. A \<open>GetAll\<close> that ran
    concurrently with writers under pointer receivers returns exactly the keys in the
    spec's glob language of the store after a prefix of the writes. It combines the
    snapshot invariant of \<open>Concurrency\<close>, the decomposition of \<open>GetAll\<close> in
    \<open>Store\<close> and the refinement of \<open>GlobSpec\<close>.
  \<^item> C24, C25, C31: with pointer receivers, no data race, and every range read and
    every \<open>Get\<close> a consistent snapshot of the store after a prefix of the writes.
  \<^item> C26, in \<open>GoLock\<close>: under Go's lock with its writer preference, no deadlock
    (the spec's "no operation blocks indefinitely"). Every state Go's lock reaches is
    one of the model's (\<open>go_reach_model\<close>), so C24, C25 and C31 hold for Go's
    schedules. While a writer waits, no new reader enters (\<open>go_no_new_reader\<close>).
  \<^item> C27--C29: the code as written: a reachable state where a writer and a reader are
    both in their critical sections, a torn read, locks that never block.

  \<^bold>\<open>Bounds and fuel.\<close> There is no fuel: every loop of the store is structural
  recursion on the entries, \<open>classRanges\<close> and the matcher's scans terminate by a
  measure on the length of the pattern, and the concurrency model has any number of
  goroutines and any finite schedule. In the concurrent model a read's range loop is a
  sequence of steps, one per entry and one for the unlock; C26 shows that a state
  with a goroutine inside a call can always move.

  \<^bold>\<open>Not modelled.\<close>
  \<^item> UTF-8: \<open>Match\<close> decodes runes (\<open>?\<close> and a class consume one rune, a
    class compares code points), the model reads bytes; they agree on ASCII keys and
    patterns. The decoder is Go library code, and a rune model would change the unit
    \<open>GlobSpec\<close>'s refinement counts in.
  \<^item> Go's randomised map order: abstracted to an arbitrary enumeration, for which the
    results are proved independent.
  \<^item> \<open>KVPairs\<close> and its \<open>sort.Interface\<close> methods are not under src/; they are
    modelled as sorting by \<open>Key\<close>.
  \<^item> Writer preference with value receivers: each call locks a fresh copy of the
    mutex, which never waits (C29), so \<open>GoLock\<close> covers pointer receivers only. The
    order in which \<open>Unlock()\<close> wakes blocked readers and the next writer is any order.
  \<^item> The Go runtime's detection of concurrent map access, which may stop the racing
    program instead of letting it read; the model reads one entry atomically.
\<close>


section \<open>Properties across the components\<close>

text \<open>
  C14. A concurrent \<open>GetAll\<close> meets the spec's glob semantics on a snapshot: with
  pointer receivers, when a goroutine's range loop has finished having seen a prefix of
  the writes, \<open>GetAll\<close> on the entries it collected returns, for a well-formed pattern
  whose classes do not contain the separator, exactly the records of the store after
  those writes whose key is in the language of the pattern, sorted by key, and
  \<open>ErrNoMatch\<close> when there is none.
\<close>

theorem concurrent_GetAll_glob:
  assumes "creach ByPointer s" and "pc s t = DoneR n got"
    and "parse_glob pattern = Inr items" and "list_all sep_free items"
  shows "getAll_with Match got pattern =
    (let hits = filter (\<lambda>kv. Key kv \<in> glob_lang items) (entries (run (take n (log s)) New))
     in if hits = [] then Inl ErrNoMatch else Inr (sort_key Key hits))"
proof -
  have "view_ok (log s) (mem s) (pc s t)"
    using creach_cinv [OF assms(1)] by (rule cinvD)
  with assms(2) have got: "got = entries (run (take n (log s)) New)"
    by simp
  have match: "Match pattern name = Inr (name \<in> glob_lang items)" for name
    using Match_gmatch [OF assms(3,4)] by (simp add: gmatch_lang)
  have "getAll_with Match got pattern = GetAll pattern (run (take n (log s)) New)"
    by (simp add: got GetAll_def)
  also have "\<dots> = (let hits = filter (\<lambda>kv. Key kv \<in> glob_lang items) (entries (run (take n (log s)) New))
     in if hits = [] then Inl ErrNoMatch else Inr (sort_key Key hits))"
    by (simp add: GetAll_eq match Let_def)
  finally show ?thesis .
qed

theorem concurrent_GetAll_glob_witness:
  "creach ByPointer demo_read \<and> pc demo_read 1 = DoneR 1 [\<lparr>Key = ''/a'', Value = ''1''\<rparr>] \<and>
   parse_glob ''/*'' = Inr [GLit CHR ''/'', GStar] \<and> list_all sep_free [GLit CHR ''/'', GStar] \<and>
   getAll_with Match [\<lparr>Key = ''/a'', Value = ''1''\<rparr>] ''/*'' = Inr [\<lparr>Key = ''/a'', Value = ''1''\<rparr>]"
proof -
  have pc: "pc demo_read 1 = DoneR 1 [\<lparr>Key = ''/a'', Value = ''1''\<rparr>]"
    by (simp add: demo_read_def demo_defs)
  have p: "parse_glob ''/*'' = Inr [GLit CHR ''/'', GStar]"
    by (simp add: glob_spec_eval)
  have sf: "list_all sep_free [GLit CHR ''/'', GStar]"
    by simp
  have log: "entries (run (take (Suc 0) (log demo_read)) New) = [\<lparr>Key = ''/a'', Value = ''1''\<rparr>]"
    by (simp add: demo_read_def demo_defs run_def Set_def New_def entries_def)
  show ?thesis
    using concurrent_GetAll_glob [OF demo_read_reach pc p sf] demo_read_reach pc p sf
    by (simp del: glob_lang.simps add: log gmatch_lang [symmetric])
qed

end
